theory Spec2Isabelle
  imports Main "HOL-Library.Word"
begin

unbundle bit_operations_syntax

section \<open>Data model (usart.h)\<close>

type_synonym uint8_t = "8 word"
type_synonym uint16_t = "16 word"
type_synonym uint32_t = "32 word"

text \<open>\<^verbatim>\<open>enum class PeripheralType\<close>, in the order of declaration.\<close>

datatype PeripheralType = USART_1 | USART_2 | USART_3 | LPUART_1

text \<open>\<^verbatim>\<open>struct Config\<close>.\<close>

record Config =
  baudRate :: uint32_t
  wordLength :: uint32_t
  stopBits :: uint32_t
  parity :: uint32_t
  hwFlowControl :: uint32_t
  transferDirection :: uint32_t

text \<open>
  \<^verbatim>\<open>template<uint16_t SIZE> class CircularBuffer\<close>: the backing array and the two
  \<^verbatim>\<open>volatile uint16_t\<close> indices. The template parameter \<open>SIZE\<close> is the first argument
  of every member function below.
\<close>

record CircularBuffer =
  buffer :: "uint8_t list"
  head :: uint16_t
  tail :: uint16_t

text \<open>
  \<^verbatim>\<open>static_assert((SIZE & (SIZE - 1)) == 0, ...)\<close>. The operands are promoted to
  \<^verbatim>\<open>int\<close> before the subtraction and the conjunction.
\<close>

definition static_assert_SIZE :: "uint16_t \<Rightarrow> bool" where
  "static_assert_SIZE SIZE \<longleftrightarrow> (uint SIZE AND (uint SIZE - 1)) = 0"

text \<open>The capacities the buffer is meant for: the powers of two a \<^verbatim>\<open>uint16_t\<close> holds.\<close>

definition power_of_two :: "uint16_t \<Rightarrow> bool" where
  "power_of_two SIZE \<longleftrightarrow> (\<exists>k \<in> {0..<16}. SIZE = 2 ^ k)"

text \<open>\<^verbatim>\<open>static constexpr uint16_t MASK = SIZE - 1;\<close>\<close>

definition MASK :: "uint16_t \<Rightarrow> uint16_t" where
  "MASK SIZE = SIZE - 1"

text \<open>
  The index arithmetic of the class is written on \<^verbatim>\<open>uint16_t\<close> operands, which C++
  promotes to \<^verbatim>\<open>int\<close>: the sums and differences below are computed on integers
  (they stay within \<open>-65536 .. 65536\<close>, far from the 32-bit limits), the conjunction
  with \<open>MASK\<close> is the two's complement one, and a result stored into a
  \<^verbatim>\<open>uint16_t\<close> is truncated by \<open>word_of_int\<close>.
\<close>

definition put :: "uint16_t \<Rightarrow> uint8_t \<Rightarrow> CircularBuffer \<Rightarrow> bool \<times> CircularBuffer" where
  "put SIZE data cb =
     (let next_head = (word_of_int ((uint (head cb) + 1) AND uint (MASK SIZE)) :: uint16_t)
      in if next_head = tail cb then (False, cb)
         else (True, cb\<lparr>buffer := (buffer cb)[unat (head cb) := data], head := next_head\<rparr>))"

text \<open>
  \<^verbatim>\<open>bool get(uint8_t& data)\<close>: the result \<open>None\<close> is the return value \<^verbatim>\<open>false\<close> (the
  reference is not written), \<open>Some d\<close> is \<^verbatim>\<open>true\<close> with \<open>d\<close> stored through the reference.
\<close>

definition get :: "uint16_t \<Rightarrow> CircularBuffer \<Rightarrow> uint8_t option \<times> CircularBuffer" where
  "get SIZE cb =
     (if head cb = tail cb then (None, cb)
      else (Some (buffer cb ! unat (tail cb)),
            cb\<lparr>tail := word_of_int ((uint (tail cb) + 1) AND uint (MASK SIZE))\<rparr>))"

definition isEmpty :: "CircularBuffer \<Rightarrow> bool" where
  "isEmpty cb \<longleftrightarrow> head cb = tail cb"

definition isFull :: "uint16_t \<Rightarrow> CircularBuffer \<Rightarrow> bool" where
  "isFull SIZE cb \<longleftrightarrow> ((uint (head cb) + 1) AND uint (MASK SIZE)) = uint (tail cb)"

definition availableSpace :: "uint16_t \<Rightarrow> CircularBuffer \<Rightarrow> uint16_t" where
  "availableSpace SIZE cb = word_of_int ((uint (tail cb) - uint (head cb) - 1) AND uint (MASK SIZE))"

definition size_buf :: "uint16_t \<Rightarrow> CircularBuffer \<Rightarrow> uint16_t" where
  "size_buf SIZE cb = word_of_int ((uint (head cb) - uint (tail cb)) AND uint (MASK SIZE))"

definition clear :: "CircularBuffer \<Rightarrow> CircularBuffer" where
  "clear cb = cb\<lparr>head := 0, tail := 0\<rparr>"

text \<open>
  A freshly constructed buffer: both indices are \<open>0\<close> (their member initialisers), the
  array has \<open>SIZE\<close> cells whose bytes are whatever the memory held (\<open>mem\<close>).
\<close>

definition wf_memory :: "uint16_t \<Rightarrow> uint8_t list \<Rightarrow> bool" where
  "wf_memory SIZE mem \<longleftrightarrow> length mem = unat SIZE"

definition new_buffer :: "uint8_t list \<Rightarrow> CircularBuffer" where
  "new_buffer mem = \<lparr>buffer = mem, head = 0, tail = 0\<rparr>"

text \<open>
  The representation invariant: the array has \<open>SIZE\<close> cells and both indices point
  into it, so that no access of \<open>put\<close> or \<open>get\<close> leaves the array.
\<close>

definition wf_buffer :: "uint16_t \<Rightarrow> CircularBuffer \<Rightarrow> bool" where
  "wf_buffer SIZE cb \<longleftrightarrow>
     length (buffer cb) = unat SIZE \<and> unat (head cb) < unat SIZE \<and> unat (tail cb) < unat SIZE"

text \<open>
  The queue a buffer stands for: the bytes from the cell at \<open>tail\<close> up to the cell
  before \<open>head\<close>, oldest first.
\<close>

definition contents :: "uint16_t \<Rightarrow> CircularBuffer \<Rightarrow> uint8_t list" where
  "contents SIZE cb =
     map (\<lambda>i. buffer cb ! ((unat (tail cb) + i) mod unat SIZE)) [0..<unat (size_buf SIZE cb)]"

section \<open>Operation sequences on a buffer\<close>

text \<open>Consecutive \<open>put\<close> calls, with the return value of each call.\<close>

fun put_all :: "uint16_t \<Rightarrow> uint8_t list \<Rightarrow> CircularBuffer \<Rightarrow> bool list \<times> CircularBuffer" where
  "put_all SIZE [] cb = ([], cb)"
| "put_all SIZE (b # bs) cb =
     (let (ok, cb') = put SIZE b cb; (oks, cb'') = put_all SIZE bs cb' in (ok # oks, cb''))"

text \<open>The three mutating member functions, as the steps of a run of buffer operations.\<close>

datatype buffer_op = Op_put uint8_t | Op_get | Op_clear

fun apply_op :: "uint16_t \<Rightarrow> CircularBuffer \<Rightarrow> buffer_op \<Rightarrow> CircularBuffer" where
  "apply_op SIZE cb (Op_put data) = snd (put SIZE data cb)"
| "apply_op SIZE cb Op_get = snd (get SIZE cb)"
| "apply_op SIZE cb Op_clear = clear cb"

definition apply_ops :: "uint16_t \<Rightarrow> buffer_op list \<Rightarrow> CircularBuffer \<Rightarrow> CircularBuffer" where
  "apply_ops SIZE ops cb = foldl (apply_op SIZE) cb ops"

section \<open>The driver (usart.h, usart.cpp)\<close>

text \<open>
  The register blocks \<^verbatim>\<open>LPUART1\<close>, \<^verbatim>\<open>USART1\<close>, \<^verbatim>\<open>USART2\<close>, \<^verbatim>\<open>USART3\<close> that
  \<^verbatim>\<open>usartInstance\<close> points to; \<open>None\<close> is \<^verbatim>\<open>nullptr\<close>.
\<close>

datatype USART_TypeDef = LPUART1 | USART1 | USART2 | USART3

record UsartDriver =
  peripheralType :: PeripheralType
  usartInstance :: "USART_TypeDef option"
  config :: Config
  txBuffer :: CircularBuffer
  transmissionActive :: bool

text \<open>
  What lies outside a driver object. The calls into the vendor's low-level layer and
  CMSIS are external to the repository; the model records them in program order.
\<close>

datatype ll_call =
    LL_APB1_GRP2_EnableClock_LPUART1
  | LL_APB2_GRP1_EnableClock_USART1
  | LL_APB1_GRP1_EnableClock_USART2
  | LL_APB1_GRP1_EnableClock_USART3
  | LL_RCC_GetLPUARTClockFreq
  | LL_LPUART_SetBaudRate "USART_TypeDef option" uint32_t
  | LL_LPUART_SetDataWidth "USART_TypeDef option" uint32_t
  | LL_LPUART_SetStopBitsLength "USART_TypeDef option" uint32_t
  | LL_LPUART_SetParity "USART_TypeDef option" uint32_t
  | LL_LPUART_SetTransferDirection "USART_TypeDef option" uint32_t
  | LL_LPUART_SetHWFlowCtrl "USART_TypeDef option" uint32_t
  | LL_LPUART_Enable "USART_TypeDef option"
  | LL_LPUART_EnableIT_TXE "USART_TypeDef option"
  | NVIC_GetPriorityGrouping
  | NVIC_EncodePriority
  | NVIC_SetPriority_LPUART1_IRQn
  | NVIC_EnableIRQ_LPUART1_IRQn
  | LL_LPUART_TransmitData8 "USART_TypeDef option" uint8_t

text \<open>
  \<open>g_lpuart1Instance\<close> is the file-level \<^verbatim>\<open>static void*\<close> (an object address, \<open>None\<close>
  for \<^verbatim>\<open>nullptr\<close>); \<open>ll_calls\<close> are the external calls made so far; \<open>tx_calls\<close> are the
  arguments of the calls of \<^verbatim>\<open>UsartDriver::transmitByte\<close> made so far, in call order.
\<close>

record Machine =
  g_lpuart1Instance :: "nat option"
  ll_calls :: "ll_call list"
  tx_calls :: "uint8_t list"

definition getDefaultLpuartConfig :: Config where
  "getDefaultLpuartConfig =
     \<lparr>baudRate = 115200, wordLength = 0, stopBits = 0, parity = 0, hwFlowControl = 0,
      transferDirection = 0xC\<rparr>"

definition getDefaultUsartConfig :: Config where
  "getDefaultUsartConfig =
     \<lparr>baudRate = 115200, wordLength = 0, stopBits = 0, parity = 0, hwFlowControl = 0,
      transferDirection = 0\<rparr>"

text \<open>
  The constructor. The members \<^verbatim>\<open>config\<close> and \<^verbatim>\<open>txBuffer.buffer\<close> have no initialiser:
  \<open>cfg0\<close> and \<open>mem\<close> are what the object's memory held.
\<close>

definition new_driver :: "PeripheralType \<Rightarrow> Config \<Rightarrow> uint8_t list \<Rightarrow> UsartDriver" where
  "new_driver peripheral cfg0 mem =
     \<lparr>peripheralType = peripheral,
      usartInstance =
        (case peripheral of
           LPUART_1 \<Rightarrow> Some LPUART1
         | USART_1 \<Rightarrow> Some USART1
         | USART_2 \<Rightarrow> Some USART2
         | USART_3 \<Rightarrow> Some USART3),
      config = cfg0,
      txBuffer = new_buffer mem,
      transmissionActive = False\<rparr>"

definition registerLpuart1Handler :: "nat option \<Rightarrow> Machine \<Rightarrow> Machine" where
  "registerLpuart1Handler instance m = m\<lparr>g_lpuart1Instance := instance\<rparr>"

definition extern_calls :: "ll_call list \<Rightarrow> Machine \<Rightarrow> Machine" where
  "extern_calls cs m = m\<lparr>ll_calls := ll_calls m @ cs\<rparr>"

definition initializeLpuart :: "nat \<Rightarrow> UsartDriver \<Rightarrow> Machine \<Rightarrow> Machine" where
  "initializeLpuart this d m =
     (let lpuart = usartInstance d;
          m1 = extern_calls
                 [LL_APB1_GRP2_EnableClock_LPUART1,
                  LL_RCC_GetLPUARTClockFreq,
                  LL_LPUART_SetBaudRate lpuart (baudRate (config d)),
                  LL_LPUART_SetDataWidth lpuart (wordLength (config d)),
                  LL_LPUART_SetStopBitsLength lpuart (stopBits (config d)),
                  LL_LPUART_SetParity lpuart (parity (config d)),
                  LL_LPUART_SetTransferDirection lpuart (transferDirection (config d)),
                  LL_LPUART_SetHWFlowCtrl lpuart (hwFlowControl (config d)),
                  LL_LPUART_Enable lpuart] m;
          m2 = registerLpuart1Handler (Some this) m1
      in extern_calls
           [LL_LPUART_EnableIT_TXE lpuart,
            NVIC_GetPriorityGrouping, NVIC_EncodePriority, NVIC_SetPriority_LPUART1_IRQn,
            NVIC_EnableIRQ_LPUART1_IRQn] m2)"

definition initializeUsart :: "UsartDriver \<Rightarrow> Machine \<Rightarrow> Machine" where
  "initializeUsart d m =
     (case peripheralType d of
        USART_1 \<Rightarrow> extern_calls [LL_APB2_GRP1_EnableClock_USART1] m
      | USART_2 \<Rightarrow> extern_calls [LL_APB1_GRP1_EnableClock_USART2] m
      | USART_3 \<Rightarrow> extern_calls [LL_APB1_GRP1_EnableClock_USART3] m
      | LPUART_1 \<Rightarrow> m)"

text \<open>\<open>this\<close> is the address of the object the member function is called on.\<close>

definition initialize :: "nat \<Rightarrow> Config \<Rightarrow> UsartDriver \<Rightarrow> Machine \<Rightarrow> bool \<times> UsartDriver \<times> Machine" where
  "initialize this cfg d m =
     (let d1 = d\<lparr>config := cfg\<rparr>;
          m1 = (case peripheralType d1 of
                  LPUART_1 \<Rightarrow> initializeLpuart this d1 m
                | USART_1 \<Rightarrow> initializeUsart d1 m
                | USART_2 \<Rightarrow> initializeUsart d1 m
                | USART_3 \<Rightarrow> initializeUsart d1 m)
      in (True, d1, m1))"

text \<open>
  The transmit primitive. Only the \<^verbatim>\<open>LPUART_1\<close> branch writes a data register; the
  branch of the three USARTs is empty in the source.
\<close>

definition transmitByte :: "UsartDriver \<Rightarrow> uint8_t \<Rightarrow> Machine \<Rightarrow> Machine" where
  "transmitByte d data m =
     (let m1 = m\<lparr>tx_calls := tx_calls m @ [data]\<rparr>
      in case peripheralType d of
           LPUART_1 \<Rightarrow> extern_calls [LL_LPUART_TransmitData8 (usartInstance d) data] m1
         | USART_1 \<Rightarrow> m1
         | USART_2 \<Rightarrow> m1
         | USART_3 \<Rightarrow> m1)"

definition startTransmission :: "uint16_t \<Rightarrow> UsartDriver \<Rightarrow> Machine \<Rightarrow> UsartDriver \<times> Machine" where
  "startTransmission SIZE d m =
     (if isEmpty (txBuffer d) then (d, m)
      else
        (let d1 = d\<lparr>transmissionActive := True\<rparr>
         in case get SIZE (txBuffer d1) of
              (Some data, cb) \<Rightarrow> (d1\<lparr>txBuffer := cb\<rparr>, transmitByte d1 data m)
            | (None, cb) \<Rightarrow> (d1\<lparr>txBuffer := cb\<rparr>, m)))"

definition sendByte :: "uint16_t \<Rightarrow> uint8_t \<Rightarrow> UsartDriver \<Rightarrow> Machine \<Rightarrow> bool \<times> UsartDriver \<times> Machine" where
  "sendByte SIZE data d m =
     (let (success, cb) = put SIZE data (txBuffer d);
          d1 = d\<lparr>txBuffer := cb\<rparr>
      in if success \<and> \<not> transmissionActive d1
         then (let (d2, m2) = startTransmission SIZE d1 m in (success, d2, m2))
         else (success, d1, m))"

definition handleTxCompleteInterrupt :: "uint16_t \<Rightarrow> UsartDriver \<Rightarrow> Machine \<Rightarrow> UsartDriver \<times> Machine" where
  "handleTxCompleteInterrupt SIZE d m =
     (case get SIZE (txBuffer d) of
        (Some data, cb) \<Rightarrow> (d\<lparr>txBuffer := cb\<rparr>, transmitByte d data m)
      | (None, cb) \<Rightarrow> (d\<lparr>txBuffer := cb, transmissionActive := False\<rparr>, m))"

definition isTransmissionActive :: "UsartDriver \<Rightarrow> bool" where
  "isTransmissionActive d = transmissionActive d"

definition getAvailableSpace :: "uint16_t \<Rightarrow> UsartDriver \<Rightarrow> uint16_t" where
  "getAvailableSpace SIZE d = availableSpace SIZE (txBuffer d)"

definition getQueueSize :: "uint16_t \<Rightarrow> UsartDriver \<Rightarrow> uint16_t" where
  "getQueueSize SIZE d = size_buf SIZE (txBuffer d)"

definition clearBuffer :: "UsartDriver \<Rightarrow> UsartDriver" where
  "clearBuffer d = d\<lparr>txBuffer := clear (txBuffer d)\<rparr>"

section \<open>Interrupt routing\<close>

text \<open>
  The driver objects of the program by address, each with the template argument
  \<^verbatim>\<open>BUFFER_SIZE\<close> it was instantiated with, and what lies outside them.
\<close>

record Instance =
  template_arg :: uint16_t
  driver :: UsartDriver

record World =
  objects :: "nat \<rightharpoonup> Instance"
  machine :: Machine

text \<open>
  \<^verbatim>\<open>handleLpuart1Interrupt\<close> casts the registered \<^verbatim>\<open>void*\<close> to \<^verbatim>\<open>UsartDriver<256>*\<close>
  whatever object was registered, and calls the member function through it. Two calls
  have no defined behaviour and are error values: through an address at which no
  driver object lives, and through the address of a driver of another instantiation,
  whose \<open>head\<close>, \<open>tail\<close> and \<open>transmissionActive\<close> do not lie where the 256-cell
  layout puts them.
\<close>

datatype fault = Dangling_instance | Wrong_instantiation

definition handleLpuart1Interrupt :: "World \<Rightarrow> fault + World" where
  "handleLpuart1Interrupt w =
     (case g_lpuart1Instance (machine w) of
        None \<Rightarrow> Inr w
      | Some p \<Rightarrow>
          (case objects w p of
             None \<Rightarrow> Inl Dangling_instance
           | Some obj \<Rightarrow>
               if template_arg obj = 256
               then (let (d', m') = handleTxCompleteInterrupt 256 (driver obj) (machine w)
                     in Inr (w\<lparr>objects := (objects w)(p \<mapsto> obj\<lparr>driver := d'\<rparr>),
                               machine := m'\<rparr>))
               else Inl Wrong_instantiation))"

definition USART_HandleLpuart1Interrupt :: "World \<Rightarrow> fault + World" where
  "USART_HandleLpuart1Interrupt w = handleLpuart1Interrupt w"

section \<open>Interleavings of foreground and interrupt calls\<close>

text \<open>
  The calls that touch the transmit queue, as events of a run. \<open>Ev_put\<close> is a
  \<^verbatim>\<open>txBuffer.put\<close> on its own, as the loops of \<^verbatim>\<open>sendData\<close>, \<^verbatim>\<open>sendString\<close>,
  \<^verbatim>\<open>sendHex\<close> and \<^verbatim>\<open>sendBinary\<close> issue it before they call \<^verbatim>\<open>startTransmission\<close>;
  \<open>Ev_sendByte\<close> is a whole \<^verbatim>\<open>sendByte\<close> call; \<open>Ev_startTransmission\<close> and
  \<open>Ev_interrupt\<close> are calls of the two public member functions that consume.
  A run keeps, beside the driver and the machine, the bytes whose \<open>put\<close> returned
  \<^verbatim>\<open>true\<close>, in the order of the calls.
\<close>

datatype event = Ev_put uint8_t | Ev_sendByte uint8_t | Ev_startTransmission | Ev_interrupt

record run_state =
  drv :: UsartDriver
  mach :: Machine
  enqueued :: "uint8_t list"

fun step :: "uint16_t \<Rightarrow> run_state \<Rightarrow> event \<Rightarrow> run_state" where
  "step SIZE s (Ev_put b) =
     (let (ok, cb) = put SIZE b (txBuffer (drv s))
      in s\<lparr>drv := (drv s)\<lparr>txBuffer := cb\<rparr>,
           enqueued := (if ok then enqueued s @ [b] else enqueued s)\<rparr>)"
| "step SIZE s (Ev_sendByte b) =
     (let (ok, d, m) = sendByte SIZE b (drv s) (mach s)
      in s\<lparr>drv := d, mach := m,
           enqueued := (if ok then enqueued s @ [b] else enqueued s)\<rparr>)"
| "step SIZE s Ev_startTransmission =
     (let (d, m) = startTransmission SIZE (drv s) (mach s) in s\<lparr>drv := d, mach := m\<rparr>)"
| "step SIZE s Ev_interrupt =
     (let (d, m) = handleTxCompleteInterrupt SIZE (drv s) (mach s) in s\<lparr>drv := d, mach := m\<rparr>)"

definition run :: "uint16_t \<Rightarrow> event list \<Rightarrow> run_state \<Rightarrow> run_state" where
  "run SIZE es s = foldl (step SIZE) s es"

text \<open>A machine on which nothing has happened yet, and the start of a run on it.\<close>

definition fresh_machine :: Machine where
  "fresh_machine = \<lparr>g_lpuart1Instance = None, ll_calls = [], tx_calls = []\<rparr>"

definition start_state :: "PeripheralType \<Rightarrow> Config \<Rightarrow> uint8_t list \<Rightarrow> run_state" where
  "start_state peripheral cfg0 mem =
     \<lparr>drv = new_driver peripheral cfg0 mem, mach = fresh_machine, enqueued = []\<rparr>"

section \<open>Interrupts inside a foreground call\<close>

text \<open>
  The transmit interrupt has a higher priority than the foreground and runs to
  completion, so it can arrive between any two accesses of the foreground to the
  shared \<^verbatim>\<open>volatile\<close> members. The places on the path of \<^verbatim>\<open>sendByte\<close> through
  \<^verbatim>\<open>startTransmission\<close> and \<^verbatim>\<open>get\<close> where it can arrive, in program order:
  after \<^verbatim>\<open>txBuffer.put\<close> returned; after \<^verbatim>\<open>transmissionActive\<close> was read as
  \<^verbatim>\<open>false\<close>; after \<^verbatim>\<open>isEmpty()\<close> returned \<^verbatim>\<open>false\<close>; after
  \<^verbatim>\<open>transmissionActive = true\<close>; in \<^verbatim>\<open>get\<close> after \<^verbatim>\<open>head == tail\<close> was found
  \<^verbatim>\<open>false\<close>; in \<^verbatim>\<open>get\<close> after \<^verbatim>\<open>data = buffer[tail]\<close>; after \<^verbatim>\<open>get\<close> returned
  \<^verbatim>\<open>true\<close>. A schedule says how many interrupts arrive at each place.
\<close>

datatype preemption_point =
    After_put
  | After_active_test
  | After_isEmpty
  | After_set_active
  | In_get_after_test
  | In_get_after_read
  | Before_transmitByte

type_synonym schedule = "preemption_point \<Rightarrow> nat"

definition no_interrupt :: schedule where
  "no_interrupt = (\<lambda>p. 0)"

definition interrupt_at :: "preemption_point \<Rightarrow> schedule" where
  "interrupt_at p = (\<lambda>q. if q = p then Suc 0 else 0)"

fun interrupts :: "uint16_t \<Rightarrow> nat \<Rightarrow> UsartDriver \<Rightarrow> Machine \<Rightarrow> UsartDriver \<times> Machine" where
  "interrupts SIZE 0 d m = (d, m)"
| "interrupts SIZE (Suc n) d m =
     (let (d', m') = handleTxCompleteInterrupt SIZE d m in interrupts SIZE n d' m')"

text \<open>
  \<^verbatim>\<open>txBuffer.get(data)\<close> as the foreground executes it, statement by statement: every
  access to \<open>head\<close> and \<open>tail\<close> reads the member as the interrupts so far have left it.
\<close>

definition get_preempted ::
    "uint16_t \<Rightarrow> schedule \<Rightarrow> UsartDriver \<Rightarrow> Machine \<Rightarrow> uint8_t option \<times> UsartDriver \<times> Machine" where
  "get_preempted SIZE sched d m =
     (if head (txBuffer d) = tail (txBuffer d) then (None, d, m)
      else
        (let (d1, m1) = interrupts SIZE (sched In_get_after_test) d m;
             data = buffer (txBuffer d1) ! unat (tail (txBuffer d1));
             (d2, m2) = interrupts SIZE (sched In_get_after_read) d1 m1;
             cb = txBuffer d2
         in (Some data,
             d2\<lparr>txBuffer := cb\<lparr>tail := word_of_int ((uint (tail cb) + 1) AND uint (MASK SIZE))\<rparr>\<rparr>,
             m2)))"

definition startTransmission_preempted ::
    "uint16_t \<Rightarrow> schedule \<Rightarrow> UsartDriver \<Rightarrow> Machine \<Rightarrow> UsartDriver \<times> Machine" where
  "startTransmission_preempted SIZE sched d m =
     (if isEmpty (txBuffer d) then (d, m)
      else
        (let (d1, m1) = interrupts SIZE (sched After_isEmpty) d m;
             (d2, m2) = interrupts SIZE (sched After_set_active) (d1\<lparr>transmissionActive := True\<rparr>) m1
         in case get_preempted SIZE sched d2 m2 of
              (Some data, d3, m3) \<Rightarrow>
                (let (d4, m4) = interrupts SIZE (sched Before_transmitByte) d3 m3
                 in (d4, transmitByte d4 data m4))
            | (None, d3, m3) \<Rightarrow> (d3, m3)))"

definition sendByte_preempted ::
    "uint16_t \<Rightarrow> schedule \<Rightarrow> uint8_t \<Rightarrow> UsartDriver \<Rightarrow> Machine \<Rightarrow> bool \<times> UsartDriver \<times> Machine" where
  "sendByte_preempted SIZE sched data d m =
     (let (success, cb) = put SIZE data (txBuffer d);
          (d1, m1) = interrupts SIZE (sched After_put) (d\<lparr>txBuffer := cb\<rparr>) m
      in if success \<and> \<not> transmissionActive d1
         then (let (d2, m2) = interrupts SIZE (sched After_active_test) d1 m1;
                   (d3, m3) = startTransmission_preempted SIZE sched d2 m2
               in (success, d3, m3))
         else (success, d1, m1))"

section \<open>The transmit queue as a specification\<close>

text \<open>
  The queue and the state machine in the terms of the design: the pending bytes as a
  list (oldest first), the transmission state, the bytes handed to the transmit
  primitive so far, and the bytes accepted so far. \<open>C\<close> is the capacity, of which
  \<open>C - 1\<close> cells are usable. The driver is shown to refine these steps.
\<close>

type_synonym spec_state = "uint8_t list \<times> bool \<times> uint8_t list \<times> uint8_t list"

fun spec_step :: "nat \<Rightarrow> spec_state \<Rightarrow> event \<Rightarrow> spec_state" where
  "spec_step C (q, active, sent, enq) (Ev_put b) =
     (if length q < C - 1 then (q @ [b], active, sent, enq @ [b]) else (q, active, sent, enq))"
| "spec_step C (q, active, sent, enq) (Ev_sendByte b) =
     (if length q < C - 1
      then (if active then (q @ [b], True, sent, enq @ [b])
            else (tl (q @ [b]), True, sent @ [hd (q @ [b])], enq @ [b]))
      else (q, active, sent, enq))"
| "spec_step C (q, active, sent, enq) Ev_startTransmission =
     (case q of [] \<Rightarrow> (q, active, sent, enq) | x # q' \<Rightarrow> (q', True, sent @ [x], enq))"
| "spec_step C (q, active, sent, enq) Ev_interrupt =
     (case q of [] \<Rightarrow> (q, False, sent, enq) | x # q' \<Rightarrow> (q', active, sent @ [x], enq))"

definition abstraction :: "uint16_t \<Rightarrow> run_state \<Rightarrow> spec_state" where
  "abstraction SIZE s =
     (contents SIZE (txBuffer (drv s)), transmissionActive (drv s), tx_calls (mach s), enqueued s)"

section \<open>Index arithmetic\<close>

lemma power_of_twoD: "power_of_two SIZE \<Longrightarrow> \<exists>k<16. SIZE = 2 ^ k"
  by (auto simp: power_of_two_def)

lemma and_pow2m1: "(x::int) AND (2 ^ k - 1) = x mod 2 ^ k"
  by (metis mask_eq_exp_minus_1 take_bit_eq_mask take_bit_eq_mod)

lemma uint_MASK: "k < 16 \<Longrightarrow> uint (MASK (2 ^ k)) = 2 ^ k - 1"
proof -
  assume k: "k < 16"
  have "(2 ^ k :: 16 word) - 1 = mask k" by (simp add: mask_eq_exp_minus_1)
  then have "uint ((2 ^ k :: 16 word) - 1) = mask (min 16 k)" by (simp add: uint_mask_eq)
  with k show ?thesis by (simp add: MASK_def min_def mask_eq_exp_minus_1)
qed

lemma uint_pow2: "k < 16 \<Longrightarrow> uint (2 ^ k :: 16 word) = 2 ^ k"
proof -
  assume k: "k < 16"
  then have "(2 ^ k :: 16 word) \<noteq> 0" by (simp add: exp_eq_zero_iff)
  then have "0 < (2 ^ k :: 16 word)" by (simp only: word_neq_0_conv)
  then show ?thesis by (rule uint_2p)
qed

lemma unat_pow2: "k < 16 \<Longrightarrow> unat (2 ^ k :: 16 word) = 2 ^ k"
proof -
  assume "k < 16"
  then have "nat (uint (2 ^ k :: 16 word)) = 2 ^ k"
    by (simp only: uint_pow2 nat_power_eq nat_numeral)
  then show ?thesis by (simp only: unat_eq_nat_uint)
qed

lemma masked_uint: 
  assumes "k < 16"
  shows "uint (word_of_int (x AND uint (MASK (2 ^ k))) :: 16 word) = x mod 2 ^ k"
proof -
  have le: "(2::int) ^ k \<le> 2 ^ 16" using assms by (intro power_increasing) simp_all
  have "0 \<le> x mod 2 ^ k" "x mod 2 ^ k < 2 ^ k" by simp_all
  with le have "(x mod 2 ^ k) mod 2 ^ 16 = x mod 2 ^ k" by (intro mod_pos_pos_trivial) linarith+
  then show ?thesis using assms by (simp add: uint_MASK and_pow2m1 uint_word_of_int)
qed

lemma masked_unat:
  assumes "k < 16"
  shows "unat (word_of_int (x AND uint (MASK (2 ^ k))) :: 16 word) = nat (x mod 2 ^ k)"
  by (simp add: unat_eq_nat_uint masked_uint [OF assms])

lemma mod_small_cases: "(x::nat) < 2 * c \<Longrightarrow> x mod c = (if x < c then x else x - c)"
  by (simp add: mod_if)

lemma int_diff_mod:
  assumes "h < c" "t < c"
  shows "nat ((int h - int t) mod int c) = (if t \<le> h then h - t else h + c - t)"
proof (cases "t \<le> h")
  case True
  then have "(int h - int t) mod int c = int (h - t)" using assms by (simp add: of_nat_diff)
  then show ?thesis using True by simp
next
  case False
  then have "(int h - int t) mod int c = (int h - int t + int c) mod int c" by simp
  also have "\<dots> = int (h + c - t)" using False assms by (subst mod_pos_pos_trivial) auto
  finally show ?thesis using False by simp
qed

section \<open>The capacities the static assertion admits\<close>

lemma nat_pow2_of_and:
  "0 < (n::nat) \<Longrightarrow> n AND (n - 1) = 0 \<Longrightarrow> \<exists>k. n = 2 ^ k"
proof (induction n rule: less_induct)
  case (less n)
  have r: "n AND (n - 1) = of_bool (odd n \<and> odd (n - 1)) + 2 * ((n div 2) AND ((n - 1) div 2))"
    by (rule and_rec)
  with less.prems(2) have z: "(n div 2) AND ((n - 1) div 2) = 0" by simp
  show ?case
  proof (cases "even n")
    case True
    then obtain m where m: "n = 2 * m" by (auto elim: evenE)
    with less.prems(1) have mpos: "0 < m" by simp
    have "(n - 1) div 2 = m - 1" using m mpos by (cases m) simp_all
    with z m have "m AND (m - 1) = 0" by simp
    from less.IH [OF _ mpos this] m mpos obtain k where "m = 2 ^ k" by auto
    with m have "n = 2 ^ Suc k" by simp
    then show ?thesis by blast
  next
    case False
    then obtain m where m: "n = 2 * m + 1" by (auto elim: oddE)
    then have "(n - 1) div 2 = m" "n div 2 = m" by simp_all
    with z have "m = 0" by simp
    with m have "n = 2 ^ 0" by simp
    then show ?thesis by blast
  qed
qed

lemma power_of_two_static_assert:
  "power_of_two SIZE \<longleftrightarrow> SIZE \<noteq> 0 \<and> static_assert_SIZE SIZE"
proof
  assume "power_of_two SIZE"
  then obtain k where k: "k < 16" and S: "SIZE = 2 ^ k" using power_of_twoD by blast
  have "(2 ^ k :: uint16_t) \<noteq> 0" using k by (simp add: exp_eq_zero_iff)
  moreover have "(2::int) ^ k AND (2 ^ k - 1) = 0" by (simp add: and_pow2m1)
  ultimately show "SIZE \<noteq> 0 \<and> static_assert_SIZE SIZE"
    by (simp add: S static_assert_SIZE_def uint_pow2 [OF k])
next
  assume a: "SIZE \<noteq> 0 \<and> static_assert_SIZE SIZE"
  define n where "n = unat SIZE"
  have npos: "0 < n" using a by (simp add: n_def unat_gt_0)
  have u: "uint SIZE = int n" unfolding n_def by (rule uint_nat)
  have e: "int n - 1 = int (n - 1)" using npos by (simp add: of_nat_diff)
  have "uint SIZE AND (uint SIZE - 1) = 0" using a by (simp only: static_assert_SIZE_def)
  then have "int n AND int (n - 1) = 0" unfolding u e .
  then have "int (n AND (n - 1)) = int 0" by (simp only: of_nat_and_eq of_nat_0)
  then have "n AND (n - 1) = 0" by (simp only: of_nat_eq_iff)
  from nat_pow2_of_and [OF npos this] obtain k where nk: "n = 2 ^ k" by blast
  have "n < 2 ^ LENGTH(16)" unfolding n_def by (rule unsigned_less)
  then have "n < 2 ^ 16" by simp
  with nk have "(2::nat) ^ k < 2 ^ 16" by simp
  then have k: "k < 16" by (simp only: power_strict_increasing_iff)
  have "SIZE = of_nat (unat SIZE)" by simp
  also have "\<dots> = of_nat (2 ^ k)" using nk by (simp only: n_def)
  also have "\<dots> = 2 ^ k" by simp
  finally have "SIZE = 2 ^ k" .
  with k show "power_of_two SIZE" by (auto simp: power_of_two_def)
qed

section \<open>The buffer as a queue\<close>

lemma unat_size_buf:
  assumes "k < 16" "wf_buffer (2 ^ k) cb"
  shows "unat (size_buf (2 ^ k) cb) =
    (if unat (tail cb) \<le> unat (head cb) then unat (head cb) - unat (tail cb)
     else unat (head cb) + 2 ^ k - unat (tail cb))"
proof -
  have "unat (head cb) < 2 ^ k" "unat (tail cb) < 2 ^ k"
    using assms by (simp_all add: wf_buffer_def unat_pow2)
  from int_diff_mod [OF this] show ?thesis
    using assms(1) by (simp add: size_buf_def masked_unat)
qed

lemma unat_next_index:
  assumes "k < 16"
  shows "unat (word_of_int ((uint x + 1) AND uint (MASK (2 ^ k))) :: 16 word) = (unat x + 1) mod 2 ^ k"
proof -
  have "(uint x + 1) mod 2 ^ k = int ((unat x + 1) mod 2 ^ k)"
    by (simp add: zmod_int add.commute)
  then show ?thesis using assms by (simp add: masked_unat)
qed

lemma int_diff1_mod:
  assumes "h < c" "t < c"
  shows "nat ((int t - int h - 1) mod int c) = c - 1 - (if t \<le> h then h - t else h + c - t)"
proof (cases "t \<le> h")
  case True
  have "(int t - int h - 1) mod int c = (int t - int h - 1 + int c) mod int c" by simp
  also have "\<dots> = int t - int h - 1 + int c" using True assms by (intro mod_pos_pos_trivial) auto
  finally show ?thesis using True assms by simp
next
  case False
  then have "(int t - int h - 1) mod int c = int t - int h - 1"
    using assms by (intro mod_pos_pos_trivial) auto
  then show ?thesis using False assms by simp
qed

lemma unat_availableSpace:
  assumes "k < 16" "wf_buffer (2 ^ k) cb"
  shows "unat (availableSpace (2 ^ k) cb) = 2 ^ k - 1 - unat (size_buf (2 ^ k) cb)"
proof -
  have "unat (head cb) < 2 ^ k" "unat (tail cb) < 2 ^ k"
    using assms by (simp_all add: wf_buffer_def unat_pow2)
  from int_diff1_mod [OF this] show ?thesis
    using assms(1) unfolding unat_size_buf [OF assms]
    by (simp add: availableSpace_def masked_unat)
qed

lemma wf_put: 
  assumes "k < 16" "wf_buffer (2 ^ k) cb"
  shows "wf_buffer (2 ^ k) (snd (put (2 ^ k) d cb))"
  using assms by (auto simp: put_def Let_def wf_buffer_def unat_next_index unat_pow2)

lemma wf_get: 
  assumes "k < 16" "wf_buffer (2 ^ k) cb"
  shows "wf_buffer (2 ^ k) (snd (get (2 ^ k) cb))"
  using assms by (auto simp: get_def Let_def wf_buffer_def unat_next_index unat_pow2)

lemma wf_clear:
  assumes "k < 16" "wf_buffer (2 ^ k) cb"
  shows "wf_buffer (2 ^ k) (clear cb)"
  using assms by (simp add: wf_buffer_def clear_def unat_pow2)

lemma wf_apply_ops:
  assumes "k < 16"
  shows "wf_buffer (2 ^ k) cb \<Longrightarrow> wf_buffer (2 ^ k) (apply_ops (2 ^ k) ops cb)"
proof (induction ops arbitrary: cb)
  case Nil
  then show ?case by (simp add: apply_ops_def)
next
  case (Cons op ops)
  have "wf_buffer (2 ^ k) (apply_op (2 ^ k) cb op)"
    using Cons.prems wf_put [OF assms] wf_get [OF assms] wf_clear [OF assms] by (cases op) simp_all
  from Cons.IH [OF this] show ?case by (simp add: apply_ops_def)
qed

lemma length_contents: "length (contents SIZE cb) = unat (size_buf SIZE cb)"
  by (simp add: contents_def)

lemma size_lt:
  assumes "k < 16" "wf_buffer (2 ^ k) cb"
  shows "unat (size_buf (2 ^ k) cb) < 2 ^ k"
  using assms by (auto simp: unat_size_buf wf_buffer_def unat_pow2)

lemma isEmpty_iff:
  assumes "k < 16" "wf_buffer (2 ^ k) cb"
  shows "isEmpty cb \<longleftrightarrow> contents (2 ^ k) cb = []"
proof -
  have "head cb = tail cb \<longleftrightarrow> unat (head cb) = unat (tail cb)" by (simp add: word_unat_eq_iff)
  moreover have "contents (2 ^ k) cb = [] \<longleftrightarrow> unat (size_buf (2 ^ k) cb) = 0"
    by (simp add: contents_def)
  ultimately show ?thesis using assms
    by (auto simp: isEmpty_def unat_size_buf wf_buffer_def unat_pow2)
qed

lemma put_full_iff:
  assumes "k < 16" "wf_buffer (2 ^ k) cb"
  shows "fst (put (2 ^ k) d cb) \<longleftrightarrow> unat (size_buf (2 ^ k) cb) < 2 ^ k - 1"
proof -
  define h t where "h = unat (head cb)" and "t = unat (tail cb)"
  have ht: "h < 2 ^ k" "t < 2 ^ k"
    using assms by (simp_all add: wf_buffer_def unat_pow2 h_def t_def)
  then have "h + 1 < 2 * 2 ^ k" by simp
  note nx = mod_small_cases [OF this]
  have "fst (put (2 ^ k) d cb) \<longleftrightarrow> (h + 1) mod 2 ^ k \<noteq> t"
    using assms(1) by (simp add: put_def Let_def word_unat_eq_iff unat_next_index h_def t_def)
  also have "\<dots> \<longleftrightarrow> (if t \<le> h then h - t else h + 2 ^ k - t) < 2 ^ k - 1"
    using ht unfolding nx by auto
  finally show ?thesis unfolding unat_size_buf [OF assms] h_def t_def .
qed

lemma put_False: "\<not> fst (put SIZE d cb) \<Longrightarrow> put SIZE d cb = (False, cb)"
  by (simp add: put_def Let_def split: if_splits)

lemma put_True:
  assumes "k < 16" "wf_buffer (2 ^ k) cb" "fst (put (2 ^ k) d cb)"
  shows "contents (2 ^ k) (snd (put (2 ^ k) d cb)) = contents (2 ^ k) cb @ [d]"
proof -
  define h t n where "h = unat (head cb)" and "t = unat (tail cb)"
    and "n = unat (size_buf (2 ^ k) cb)"
  let ?cb' = "snd (put (2 ^ k) d cb)"
  have ht: "h < 2 ^ k" "t < 2 ^ k" and len: "length (buffer cb) = 2 ^ k"
    using assms by (simp_all add: wf_buffer_def unat_pow2 h_def t_def)
  have n: "n = (if t \<le> h then h - t else h + 2 ^ k - t)"
    unfolding n_def h_def t_def by (rule unat_size_buf [OF assms(1,2)])
  have nlt: "n < 2 ^ k - 1"
    using put_full_iff [OF assms(1,2)] assms(3) by (simp add: n_def)
  have "h + 1 < 2 * 2 ^ k" using ht by simp
  note nx = mod_small_cases [OF this]
  have wf': "wf_buffer (2 ^ k) ?cb'" by (rule wf_put [OF assms(1,2)])
  have h': "unat (head ?cb') = (h + 1) mod 2 ^ k" and t': "tail ?cb' = tail cb"
    and b': "buffer ?cb' = (buffer cb)[h := d]"
    using assms(1,3) by (simp_all add: put_def Let_def unat_next_index h_def split: if_splits)
  have n': "unat (size_buf (2 ^ k) ?cb') = Suc n"
    unfolding unat_size_buf [OF assms(1) wf'] h' t' nx using ht nlt n
    by (auto simp: t_def split: if_splits)
  have at_h: "(t + n) mod 2 ^ k = h"
  proof -
    have "t + n < 2 * 2 ^ k" using ht n by (auto split: if_splits)
    from mod_small_cases [OF this] show ?thesis using ht n by (auto split: if_splits)
  qed
  have other: "(t + i) mod 2 ^ k \<noteq> h" if "i < n" for i
  proof -
    have "t + i < 2 * 2 ^ k" using ht n that by (auto split: if_splits)
    from mod_small_cases [OF this] show ?thesis using ht n that by (auto split: if_splits)
  qed
  have "contents (2 ^ k) ?cb' = map (\<lambda>i. (buffer cb)[h := d] ! ((t + i) mod 2 ^ k)) [0..<Suc n]"
    using assms(1) by (simp add: contents_def n' t' b' t_def unat_pow2)
  also have "\<dots> = map (\<lambda>i. (buffer cb)[h := d] ! ((t + i) mod 2 ^ k)) [0..<n] @ [d]"
    using at_h ht len by simp
  also have "map (\<lambda>i. (buffer cb)[h := d] ! ((t + i) mod 2 ^ k)) [0..<n]
      = map (\<lambda>i. buffer cb ! ((t + i) mod 2 ^ k)) [0..<n]"
  proof (rule map_cong)
    fix i assume "i \<in> set [0..<n]"
    then have "i < n" by simp
    from other [OF this] have "h \<noteq> (t + i) mod 2 ^ k" by simp
    then show "(buffer cb)[h := d] ! ((t + i) mod 2 ^ k) = buffer cb ! ((t + i) mod 2 ^ k)"
      by (rule nth_list_update_neq)
  qed simp
  also have "\<dots> = contents (2 ^ k) cb"
    using assms(1) by (simp add: contents_def n_def t_def unat_pow2)
  finally show ?thesis .
qed

lemma get_empty: "isEmpty cb \<Longrightarrow> get SIZE cb = (None, cb)"
  by (simp add: get_def isEmpty_def)

lemma get_nonempty:
  assumes "k < 16" "wf_buffer (2 ^ k) cb" "\<not> isEmpty cb"
  shows "fst (get (2 ^ k) cb) = Some (hd (contents (2 ^ k) cb))"
    and "contents (2 ^ k) (snd (get (2 ^ k) cb)) = tl (contents (2 ^ k) cb)"
proof -
  define h t n where "h = unat (head cb)" and "t = unat (tail cb)"
    and "n = unat (size_buf (2 ^ k) cb)"
  let ?cb' = "snd (get (2 ^ k) cb)"
  have ht: "h < 2 ^ k" "t < 2 ^ k"
    using assms by (simp_all add: wf_buffer_def unat_pow2 h_def t_def)
  have n: "n = (if t \<le> h then h - t else h + 2 ^ k - t)"
    unfolding n_def h_def t_def by (rule unat_size_buf [OF assms(1,2)])
  have "h \<noteq> t" using assms(3) by (simp add: isEmpty_def h_def t_def word_unat_eq_iff)
  then have npos: "0 < n" using n ht by (auto split: if_splits)
  have "t + 1 < 2 * 2 ^ k" using ht by simp
  note nx = mod_small_cases [OF this]
  have wf': "wf_buffer (2 ^ k) ?cb'" by (rule wf_get [OF assms(1,2)])
  have t': "unat (tail ?cb') = (t + 1) mod 2 ^ k" and h': "head ?cb' = head cb"
    and b': "buffer ?cb' = buffer cb"
    using assms(1,3) by (simp_all add: get_def isEmpty_def unat_next_index t_def)
  have n': "unat (size_buf (2 ^ k) ?cb') = n - 1"
    unfolding unat_size_buf [OF assms(1) wf'] h' t' nx using ht npos n
    by (auto simp: h_def split: if_splits)
  have c: "contents (2 ^ k) cb = map (\<lambda>i. buffer cb ! ((t + i) mod 2 ^ k)) [0..<n]"
    using assms(1) by (simp add: contents_def n_def t_def unat_pow2)
  have "[0..<n] = 0 # map Suc [0..<n - 1]"
    using npos by (metis Suc_pred' map_Suc_upt upt_conv_Cons)
  then have c2: "contents (2 ^ k) cb =
      buffer cb ! t # map (\<lambda>i. buffer cb ! ((t + Suc i) mod 2 ^ k)) [0..<n - 1]"
    using ht unfolding c by (simp add: comp_def)
  show "fst (get (2 ^ k) cb) = Some (hd (contents (2 ^ k) cb))"
    using assms(3) unfolding c2 by (simp add: get_def isEmpty_def t_def)
  have "contents (2 ^ k) ?cb' = map (\<lambda>i. buffer cb ! (((t + 1) mod 2 ^ k + i) mod 2 ^ k)) [0..<n - 1]"
    using assms(1) by (simp add: contents_def n' t' b' unat_pow2)
  also have "\<dots> = map (\<lambda>i. buffer cb ! ((t + Suc i) mod 2 ^ k)) [0..<n - 1]"
    by (simp add: mod_add_left_eq)
  finally show "contents (2 ^ k) ?cb' = tl (contents (2 ^ k) cb)"
    unfolding c2 by simp
qed

lemma produce:
  assumes "k < 16" "wf_buffer (2 ^ k) cb"
  shows "case put (2 ^ k) d cb of
           (ok, cb') \<Rightarrow> wf_buffer (2 ^ k) cb' \<and> ok = (length (contents (2 ^ k) cb) < 2 ^ k - 1) \<and>
             (if ok then contents (2 ^ k) cb' = contents (2 ^ k) cb @ [d] else cb' = cb)"
proof (cases "fst (put (2 ^ k) d cb)")
  case True
  with put_True [OF assms True] wf_put [OF assms, where d = d] put_full_iff [OF assms, where d = d]
  show ?thesis by (auto simp: length_contents split: prod.splits)
next
  case False
  with put_False [OF False] put_full_iff [OF assms, where d = d] assms(2)
  show ?thesis by (auto simp: length_contents split: prod.splits)
qed

lemma consume:
  assumes "k < 16" "wf_buffer (2 ^ k) cb"
  shows "case get (2 ^ k) cb of
           (None, cb') \<Rightarrow> cb' = cb \<and> contents (2 ^ k) cb = [] \<and> isEmpty cb
         | (Some x, cb') \<Rightarrow> wf_buffer (2 ^ k) cb' \<and> contents (2 ^ k) cb = x # contents (2 ^ k) cb' \<and> \<not> isEmpty cb"
proof (cases "isEmpty cb")
  case True
  then show ?thesis using isEmpty_iff [OF assms] by (simp add: get_empty)
next
  case False
  have ne: "contents (2 ^ k) cb \<noteq> []" using False isEmpty_iff [OF assms] by simp
  from get_nonempty [OF assms False] wf_get [OF assms] ne False
  show ?thesis by (auto split: prod.splits option.splits simp: neq_Nil_conv)
qed

lemma tx_calls_transmitByte [simp]: "tx_calls (transmitByte d b m) = tx_calls m @ [b]"
  by (simp add: transmitByte_def extern_calls_def Let_def split: PeripheralType.splits)

lemma ll_calls_transmitByte:
  "ll_calls (transmitByte d b m) =
     (if peripheralType d = LPUART_1
      then ll_calls m @ [LL_LPUART_TransmitData8 (usartInstance d) b] else ll_calls m)"
  by (simp add: transmitByte_def extern_calls_def Let_def split: PeripheralType.splits)

lemma startTransmission_spec:
  assumes "k < 16" "wf_buffer (2 ^ k) (txBuffer d)"
  shows "case startTransmission (2 ^ k) d m of
           (d', m') \<Rightarrow> wf_buffer (2 ^ k) (txBuffer d') \<and>
             (case contents (2 ^ k) (txBuffer d) of
                [] \<Rightarrow> d' = d \<and> m' = m
              | x # q' \<Rightarrow> contents (2 ^ k) (txBuffer d') = q' \<and> transmissionActive d' \<and>
                  tx_calls m' = tx_calls m @ [x])"
  using consume [OF assms] isEmpty_iff [OF assms] assms(2)
  by (auto simp: startTransmission_def Let_def split: prod.splits option.splits list.splits)

lemma handleTxCompleteInterrupt_spec:
  assumes "k < 16" "wf_buffer (2 ^ k) (txBuffer d)"
  shows "case handleTxCompleteInterrupt (2 ^ k) d m of
           (d', m') \<Rightarrow> wf_buffer (2 ^ k) (txBuffer d') \<and>
             (case contents (2 ^ k) (txBuffer d) of
                [] \<Rightarrow> d' = d\<lparr>transmissionActive := False\<rparr> \<and> m' = m
              | x # q' \<Rightarrow> contents (2 ^ k) (txBuffer d') = q' \<and>
                  transmissionActive d' = transmissionActive d \<and>
                  tx_calls m' = tx_calls m @ [x])"
  using consume [OF assms] assms(2)
  by (auto simp: handleTxCompleteInterrupt_def Let_def split: prod.splits option.splits list.splits)

section \<open>The driver refines the specification\<close>

lemma sendByte_spec:
  assumes "k < 16" "wf_buffer (2 ^ k) (txBuffer d)"
  shows "case sendByte (2 ^ k) b d m of
           (ok, d', m') \<Rightarrow> wf_buffer (2 ^ k) (txBuffer d') \<and>
             ok = (length (contents (2 ^ k) (txBuffer d)) < 2 ^ k - 1) \<and>
             (if \<not> ok then d' = d \<and> m' = m
              else if transmissionActive d
              then contents (2 ^ k) (txBuffer d') = contents (2 ^ k) (txBuffer d) @ [b] \<and>
                   transmissionActive d' \<and> tx_calls m' = tx_calls m
              else contents (2 ^ k) (txBuffer d') = tl (contents (2 ^ k) (txBuffer d) @ [b]) \<and>
                   transmissionActive d' \<and>
                   tx_calls m' = tx_calls m @ [hd (contents (2 ^ k) (txBuffer d) @ [b])])"
proof -
  obtain ok cb where p: "put (2 ^ k) b (txBuffer d) = (ok, cb)" by (cases "put (2 ^ k) b (txBuffer d)")
  from produce [OF assms, where d = b] p
  have wf1: "wf_buffer (2 ^ k) cb"
    and ok: "ok = (length (contents (2 ^ k) (txBuffer d)) < 2 ^ k - 1)"
    and c1: "if ok then contents (2 ^ k) cb = contents (2 ^ k) (txBuffer d) @ [b] else cb = txBuffer d"
    by simp_all
  show ?thesis
  proof (cases "ok \<and> \<not> transmissionActive d")
    case False
    then show ?thesis using p wf1 ok c1 by (auto simp: sendByte_def)
  next
    case True
    let ?d1 = "d\<lparr>txBuffer := cb\<rparr>"
    have wfd1: "wf_buffer (2 ^ k) (txBuffer ?d1)" using wf1 by simp
    obtain d2 m2 where st: "startTransmission (2 ^ k) ?d1 m = (d2, m2)"
      by (cases "startTransmission (2 ^ k) ?d1 m")
    from startTransmission_spec [OF assms(1) wfd1, where m = m] st True c1
    have "wf_buffer (2 ^ k) (txBuffer d2)"
      "contents (2 ^ k) (txBuffer d2) = tl (contents (2 ^ k) (txBuffer d) @ [b])"
      "transmissionActive d2"
      "tx_calls m2 = tx_calls m @ [hd (contents (2 ^ k) (txBuffer d) @ [b])]"
      by (auto split: list.splits)
    then show ?thesis using p st True ok by (simp add: sendByte_def)
  qed
qed

lemma step_refines:
  assumes "k < 16" "wf_buffer (2 ^ k) (txBuffer (drv s))"
  shows "wf_buffer (2 ^ k) (txBuffer (drv (step (2 ^ k) s e)))"
    and "abstraction (2 ^ k) (step (2 ^ k) s e) = spec_step (2 ^ k) (abstraction (2 ^ k) s) e"
proof -
  have "wf_buffer (2 ^ k) (txBuffer (drv (step (2 ^ k) s e))) \<and>
    abstraction (2 ^ k) (step (2 ^ k) s e) = spec_step (2 ^ k) (abstraction (2 ^ k) s) e"
  proof (cases e)
    case (Ev_put b)
    with produce [OF assms, where d = b] show ?thesis
      by (auto simp: abstraction_def split: prod.splits)
  next
    case (Ev_sendByte b)
    with sendByte_spec [OF assms, where b = b and m = "mach s"] show ?thesis
      by (auto simp: abstraction_def split: prod.splits if_splits)
  next
    case Ev_startTransmission
    with startTransmission_spec [OF assms, where m = "mach s"] show ?thesis
      by (auto simp: abstraction_def split: prod.splits list.splits)
  next
    case Ev_interrupt
    with handleTxCompleteInterrupt_spec [OF assms, where m = "mach s"] show ?thesis
      by (auto simp: abstraction_def split: prod.splits list.splits)
  qed
  then show "wf_buffer (2 ^ k) (txBuffer (drv (step (2 ^ k) s e)))"
    and "abstraction (2 ^ k) (step (2 ^ k) s e) = spec_step (2 ^ k) (abstraction (2 ^ k) s) e"
    by simp_all
qed

lemma run_refines:
  assumes "k < 16" "wf_buffer (2 ^ k) (txBuffer (drv s))"
  shows "wf_buffer (2 ^ k) (txBuffer (drv (run (2 ^ k) es s))) \<and>
    abstraction (2 ^ k) (run (2 ^ k) es s) = foldl (spec_step (2 ^ k)) (abstraction (2 ^ k) s) es"
  using assms(2)
proof (induction es arbitrary: s)
  case Nil
  then show ?case by (simp add: run_def)
next
  case (Cons e es)
  from step_refines [OF assms(1) Cons.prems, where e = e] Cons.IH [of "step (2 ^ k) s e"]
  show ?case by (simp add: run_def)
qed

lemma spec_step_fifo:
  assumes "spec_step C (q, a, sent, enq) e = (q', a', sent', enq')" "enq = sent @ q"
  shows "enq' = sent' @ q'"
  using assms by (cases e) (auto split: if_splits list.splits)

lemma spec_run_fifo:
  assumes "foldl (spec_step C) (q, a, sent, enq) es = (q', a', sent', enq')" "enq = sent @ q"
  shows "enq' = sent' @ q'"
  using assms
proof (induction es arbitrary: q a sent enq)
  case Nil
  then show ?case by auto
next
  case (Cons e es)
  obtain q1 a1 sent1 enq1 where s1: "spec_step C (q, a, sent, enq) e = (q1, a1, sent1, enq1)"
    by (cases "spec_step C (q, a, sent, enq) e")
  from spec_step_fifo [OF s1 Cons.prems(2)] Cons.IH [of q1 a1 sent1 enq1] Cons.prems(1) s1
  show ?case by simp
qed

section \<open>Fresh buffers and drivers\<close>

lemma wf_new_buffer:
  assumes "k < 16" "wf_memory (2 ^ k) mem"
  shows "wf_buffer (2 ^ k) (new_buffer mem)"
  using assms by (simp add: wf_buffer_def wf_memory_def new_buffer_def unat_pow2)

lemma isEmpty_new_buffer: "isEmpty (new_buffer mem)"
  by (simp add: isEmpty_def new_buffer_def)

lemma abstraction_start_state:
  assumes "k < 16" "wf_memory (2 ^ k) mem"
  shows "abstraction (2 ^ k) (start_state peripheral cfg0 mem) = ([], False, [], [])"
  using isEmpty_iff [OF assms(1) wf_new_buffer [OF assms]] isEmpty_new_buffer
  by (simp add: abstraction_def start_state_def new_driver_def fresh_machine_def)

lemma spec_drain:
  "foldl (spec_step C) (q, a, sent, enq) (replicate (length q) Ev_interrupt) = ([], a, sent @ q, enq)"
  by (induction q arbitrary: sent) simp_all

section \<open>FIFO delivery between whole calls\<close>

text \<open>
  As long as no interrupt arrives inside a foreground call: for every interleaving of
  enqueue calls (\<^verbatim>\<open>put\<close> on its own, or a whole \<^verbatim>\<open>sendByte\<close>),
  \<^verbatim>\<open>startTransmission\<close> calls and transmit-complete interrupts on a freshly
  constructed driver, the successfully enqueued bytes are, in order, the bytes handed
  to the transmit primitive followed by the bytes still queued. So the bytes handed
  over are exactly the enqueued ones once the queue is empty, and as many further
  interrupts as bytes are queued hand over the rest.
\<close>

lemma fifo_delivery:
  assumes "power_of_two SIZE" "wf_memory SIZE mem"
  shows "let s = run SIZE es (start_state peripheral cfg0 mem);
             drained = run SIZE (replicate (unat (getQueueSize SIZE (drv s))) Ev_interrupt) s
         in enqueued s = tx_calls (mach s) @ contents SIZE (txBuffer (drv s)) \<and>
            (isEmpty (txBuffer (drv s)) \<longrightarrow> tx_calls (mach s) = enqueued s) \<and>
            tx_calls (mach drained) = enqueued s \<and> enqueued drained = enqueued s"
proof -
  from power_of_twoD [OF assms(1)] obtain k where k: "k < 16" and S: "SIZE = 2 ^ k" by blast
  define s where "s = run SIZE es (start_state peripheral cfg0 mem)"
  define n where "n = unat (getQueueSize SIZE (drv s))"
  define drained where "drained = run SIZE (replicate n Ev_interrupt) s"
  have wf0: "wf_buffer (2 ^ k) (txBuffer (drv (start_state peripheral cfg0 mem)))"
    using wf_new_buffer [OF k] assms(2) by (simp add: S start_state_def new_driver_def)
  from run_refines [OF k wf0, of es]
  have wfs: "wf_buffer (2 ^ k) (txBuffer (drv s))"
    and abs: "abstraction (2 ^ k) s = foldl (spec_step (2 ^ k)) ([], False, [], []) es"
    using abstraction_start_state [OF k] assms(2) by (simp_all add: s_def S)
  obtain q a sent enq where t: "abstraction (2 ^ k) s = (q, a, sent, enq)"
    by (cases "abstraction (2 ^ k) s")
  then have q: "q = contents (2 ^ k) (txBuffer (drv s))" and sent: "sent = tx_calls (mach s)"
    and enq: "enq = enqueued s"
    by (simp_all add: abstraction_def)
  have fifo: "enq = sent @ q"
    using spec_run_fifo [of "2 ^ k" "[]" False "[]" "[]" es q a sent enq] abs t by simp
  have n: "n = length q" by (simp add: n_def getQueueSize_def q length_contents S)
  from run_refines [OF k wfs, of "replicate n Ev_interrupt"]
  have "abstraction (2 ^ k) drained = ([], a, sent @ q, enq)"
    by (simp add: drained_def S t n spec_drain)
  then have d: "tx_calls (mach drained) = sent @ q" "enqueued drained = enq"
    by (simp_all add: abstraction_def)
  have e: "isEmpty (txBuffer (drv s)) \<longrightarrow> q = []"
    using isEmpty_iff [OF k wfs] q by simp
  show ?thesis
    unfolding Let_def s_def [symmetric] n_def [symmetric] drained_def [symmetric]
    using fifo d e q sent enq S by auto
qed

lemma fifo_delivery_example:
  "power_of_two 8 \<and> wf_memory 8 (replicate 8 0) \<and>
   isEmpty (txBuffer (drv (run 8 [Ev_sendByte 1, Ev_put 2, Ev_interrupt, Ev_sendByte 3, Ev_interrupt]
      (start_state LPUART_1 getDefaultLpuartConfig (replicate 8 0))))) \<and>
   tx_calls (mach (run 8 [Ev_sendByte 1, Ev_put 2, Ev_interrupt, Ev_sendByte 3, Ev_interrupt]
      (start_state LPUART_1 getDefaultLpuartConfig (replicate 8 0)))) =
   enqueued (run 8 [Ev_sendByte 1, Ev_put 2, Ev_interrupt, Ev_sendByte 3, Ev_interrupt]
      (start_state LPUART_1 getDefaultLpuartConfig (replicate 8 0))) \<and>
   enqueued (run 8 [Ev_sendByte 1, Ev_put 2, Ev_interrupt, Ev_sendByte 3, Ev_interrupt]
      (start_state LPUART_1 getDefaultLpuartConfig (replicate 8 0))) = [1, 2, 3]"
proof -
  have h1: "power_of_two 8" by code_simp
  have h2: "wf_memory 8 (replicate 8 0)" by (simp add: wf_memory_def)
  have e: "isEmpty (txBuffer (drv (run 8 [Ev_sendByte 1, Ev_put 2, Ev_interrupt, Ev_sendByte 3, Ev_interrupt]
      (start_state LPUART_1 getDefaultLpuartConfig (replicate 8 0)))))"
    by code_simp
  have v: "enqueued (run 8 [Ev_sendByte 1, Ev_put 2, Ev_interrupt, Ev_sendByte 3, Ev_interrupt]
      (start_state LPUART_1 getDefaultLpuartConfig (replicate 8 0))) = [1, 2, 3]"
    by code_simp
  from fifo_delivery [OF h1 h2,
      of "[Ev_sendByte 1, Ev_put 2, Ev_interrupt, Ev_sendByte 3, Ev_interrupt]"
         LPUART_1 getDefaultLpuartConfig] e
  have "tx_calls (mach (run 8 [Ev_sendByte 1, Ev_put 2, Ev_interrupt, Ev_sendByte 3, Ev_interrupt]
      (start_state LPUART_1 getDefaultLpuartConfig (replicate 8 0)))) =
    enqueued (run 8 [Ev_sendByte 1, Ev_put 2, Ev_interrupt, Ev_sendByte 3, Ev_interrupt]
      (start_state LPUART_1 getDefaultLpuartConfig (replicate 8 0)))"
    unfolding Let_def by blast
  with h1 h2 e v show ?thesis by simp
qed

section \<open>FIFO delivery with an interrupt inside a call\<close>

text \<open>With no interrupt, the statement-by-statement functions are the functions themselves.\<close>

lemma transmitByte_txBuffer: "transmitByte (d\<lparr>txBuffer := cb\<rparr>) b m = transmitByte d b m"
  by (simp add: transmitByte_def Let_def split: PeripheralType.splits)

lemma get_preempted_none:
  "get_preempted SIZE no_interrupt d m =
     (case get SIZE (txBuffer d) of (r, cb) \<Rightarrow> (r, d\<lparr>txBuffer := cb\<rparr>, m))"
  by (simp add: get_preempted_def get_def no_interrupt_def Let_def)

lemma startTransmission_preempted_none:
  "startTransmission_preempted SIZE no_interrupt d m = startTransmission SIZE d m"
  by (simp add: startTransmission_preempted_def startTransmission_def get_preempted_none
      transmitByte_txBuffer Let_def no_interrupt_def [THEN fun_cong]
      split: prod.splits option.splits)

lemma sendByte_preempted_none:
  "sendByte_preempted SIZE no_interrupt data d m = sendByte SIZE data d m"
proof -
  obtain success cb where p: "put SIZE data (txBuffer d) = (success, cb)"
    by (cases "put SIZE data (txBuffer d)")
  have z: "no_interrupt After_put = 0" "no_interrupt After_active_test = 0"
    by (simp_all add: no_interrupt_def)
  show ?thesis
  proof (cases "success \<and> \<not> transmissionActive d")
    case True
    then show ?thesis
      by (simp add: sendByte_preempted_def sendByte_def p z startTransmission_preempted_none)
  next
    case False
    then show ?thesis
      by (auto simp: sendByte_preempted_def sendByte_def p z)
  qed
qed

text \<open>
  C1. The bytes handed to the transmit primitive are not the enqueued bytes under
  every interleaving. On a fresh, Idle 256-cell driver for LPUART1, one
  \<^verbatim>\<open>sendByte(0x41)\<close> during which a single transmit interrupt arrives in \<^verbatim>\<open>get\<close>,
  between \<^verbatim>\<open>data = buffer[tail]\<close> and the update of \<open>tail\<close>, hands the byte \<open>0x41\<close>
  over twice and writes it to the data register twice; \<open>tail\<close> ends one past \<open>head\<close>,
  so the queue reports 255 bytes. The same call without the interrupt hands it over
  once.
\<close>

theorem fifo_broken_by_preemption:
  "(case sendByte_preempted 256 (interrupt_at In_get_after_read) 0x41
           (new_driver LPUART_1 getDefaultLpuartConfig (replicate 256 0)) fresh_machine of
      (accepted, d, m) \<Rightarrow>
        accepted \<and>
        tx_calls m = [0x41, 0x41] \<and>
        ll_calls m = [LL_LPUART_TransmitData8 (Some LPUART1) 0x41,
                      LL_LPUART_TransmitData8 (Some LPUART1) 0x41] \<and>
        head (txBuffer d) = 1 \<and> tail (txBuffer d) = 2 \<and>
        getQueueSize 256 d = 255 \<and> transmissionActive d) \<and>
   sendByte 256 0x41 (new_driver LPUART_1 getDefaultLpuartConfig (replicate 256 0)) fresh_machine =
   sendByte_preempted 256 no_interrupt 0x41
     (new_driver LPUART_1 getDefaultLpuartConfig (replicate 256 0)) fresh_machine \<and>
   tx_calls (snd (snd (sendByte 256 0x41
     (new_driver LPUART_1 getDefaultLpuartConfig (replicate 256 0)) fresh_machine))) = [0x41]"
proof -
  have a: "case sendByte_preempted 256 (interrupt_at In_get_after_read) 0x41
           (new_driver LPUART_1 getDefaultLpuartConfig (replicate 256 0)) fresh_machine of
      (accepted, d, m) \<Rightarrow>
        accepted \<and>
        tx_calls m = [0x41, 0x41] \<and>
        ll_calls m = [LL_LPUART_TransmitData8 (Some LPUART1) 0x41,
                      LL_LPUART_TransmitData8 (Some LPUART1) 0x41] \<and>
        head (txBuffer d) = 1 \<and> tail (txBuffer d) = 2 \<and>
        getQueueSize 256 d = 255 \<and> transmissionActive d"
    by code_simp
  have b: "tx_calls (snd (snd (sendByte 256 0x41
     (new_driver LPUART_1 getDefaultLpuartConfig (replicate 256 0)) fresh_machine))) = [0x41]"
    by code_simp
  from a b show ?thesis by (simp only: sendByte_preempted_none simp_thms)
qed

section \<open>Who consumes\<close>

text \<open>The interrupt handler pulls from a non-empty buffer whatever the state is.\<close>

lemma handler_ignores_state:
  assumes "\<not> isEmpty (txBuffer d)"
  shows "tx_calls (snd (handleTxCompleteInterrupt SIZE d m)) =
           tx_calls m @ [buffer (txBuffer d) ! unat (tail (txBuffer d))] \<and>
         transmissionActive (fst (handleTxCompleteInterrupt SIZE d m)) = transmissionActive d"
  using assms by (simp add: handleTxCompleteInterrupt_def get_def isEmpty_def)

text \<open>
  C6. The state does not decide which context consumes. On a fresh, Idle 256-cell
  driver: after two \<^verbatim>\<open>put\<close> calls (the loop of \<^verbatim>\<open>sendData\<close>) an interrupt pulls and
  hands over the first byte while the state is Idle and leaves it Idle, and the
  foreground's \<^verbatim>\<open>startTransmission\<close> then pulls the second; in \<^verbatim>\<open>sendByte(0x31)\<close> an
  interrupt arriving right after \<^verbatim>\<open>put\<close> hands the byte over in state Idle and the
  call ends Idle; and an interrupt arriving in the foreground's \<^verbatim>\<open>get\<close>, after the
  emptiness test, pulls while the foreground is inside \<^verbatim>\<open>get\<close> and the state is
  Active, after which the foreground hands over the stale next cell.
\<close>

theorem consumer_ownership_broken:
  "(let s2 = run 256 [Ev_put 0x31, Ev_put 0x32]
               (start_state LPUART_1 getDefaultLpuartConfig (replicate 256 0));
        s3 = step 256 s2 Ev_interrupt;
        s4 = step 256 s3 Ev_startTransmission
    in \<not> transmissionActive (drv s2) \<and> tx_calls (mach s2) = [] \<and>
       \<not> transmissionActive (drv s3) \<and> tx_calls (mach s3) = [0x31] \<and>
       transmissionActive (drv s4) \<and> tx_calls (mach s4) = [0x31, 0x32]) \<and>
   (case sendByte_preempted 256 (interrupt_at After_put) 0x31
           (new_driver LPUART_1 getDefaultLpuartConfig (replicate 256 0)) fresh_machine of
      (accepted, d, m) \<Rightarrow> accepted \<and> tx_calls m = [0x31] \<and> \<not> transmissionActive d) \<and>
   (case sendByte_preempted 256 (interrupt_at In_get_after_test) 0x31
           (new_driver LPUART_1 getDefaultLpuartConfig (replicate 256 7)) fresh_machine of
      (accepted, d, m) \<Rightarrow>
        accepted \<and> tx_calls m = [0x31, 7] \<and> transmissionActive d \<and>
        head (txBuffer d) = 1 \<and> tail (txBuffer d) = 2)"
  by code_simp

section \<open>The Idle to Active transition\<close>

text \<open>
  C2. When a \<^verbatim>\<open>sendByte\<close> is accepted while the driver is Idle
  (\<^verbatim>\<open>transmissionActive == false\<close>), the call itself pulls the oldest byte of the queue,
  hands it to the transmit primitive and leaves the driver Active. In particular
  \<^verbatim>\<open>sendByte(0xAA)\<close> on an Idle driver with an empty buffer (of a capacity that can hold
  a byte) returns \<^verbatim>\<open>true\<close>, makes \<^verbatim>\<open>isTransmissionActive()\<close> true and hands exactly
  the byte \<open>0xAA\<close> over, within the call.
\<close>

theorem idle_to_active:
  assumes "power_of_two SIZE" and "wf_buffer SIZE (txBuffer d)" and "\<not> transmissionActive d"
  shows "(fst (put SIZE b (txBuffer d)) \<longrightarrow>
            (case sendByte SIZE b d m of
               (accepted, d', m') \<Rightarrow>
                 accepted \<and> isTransmissionActive d' \<and>
                 tx_calls m' = tx_calls m @ [hd (contents SIZE (txBuffer d) @ [b])] \<and>
                 contents SIZE (txBuffer d') = tl (contents SIZE (txBuffer d) @ [b]))) \<and>
         (SIZE \<noteq> 1 \<and> isEmpty (txBuffer d) \<longrightarrow>
            (case sendByte SIZE 0xAA d m of
               (accepted, d', m') \<Rightarrow>
                 accepted \<and> isTransmissionActive d' \<and>
                 tx_calls m' = tx_calls m @ [0xAA] \<and> isEmpty (txBuffer d')))"
proof -
  from power_of_twoD [OF assms(1)] obtain k where k: "k < 16" and S: "SIZE = 2 ^ k" by blast
  have w: "wf_buffer (2 ^ k) (txBuffer d)" using assms(2) S by simp
  have general: "case sendByte SIZE x d m of
      (accepted, d', m') \<Rightarrow>
        accepted \<and> isTransmissionActive d' \<and>
        tx_calls m' = tx_calls m @ [hd (contents SIZE (txBuffer d) @ [x])] \<and>
        contents SIZE (txBuffer d') = tl (contents SIZE (txBuffer d) @ [x]) \<and>
        wf_buffer SIZE (txBuffer d')"
    if "fst (put SIZE x (txBuffer d))" for x
  proof -
    from produce [OF k w, where d = x] that
    have "length (contents (2 ^ k) (txBuffer d)) < 2 ^ k - 1"
      by (auto simp: S split: prod.splits)
    with sendByte_spec [OF k w, where b = x and m = m] assms(3)
    show ?thesis by (auto simp: S isTransmissionActive_def split: prod.splits)
  qed
  have scenario: "case sendByte SIZE 0xAA d m of
      (accepted, d', m') \<Rightarrow>
        accepted \<and> isTransmissionActive d' \<and>
        tx_calls m' = tx_calls m @ [0xAA] \<and> isEmpty (txBuffer d')"
    if "SIZE \<noteq> 1" "isEmpty (txBuffer d)"
  proof -
    have c: "contents (2 ^ k) (txBuffer d) = []" using isEmpty_iff [OF k w] that(2) by simp
    have "k \<noteq> 0" using that(1) S by (cases "k = 0") simp_all
    then have "(2::nat) ^ 1 \<le> 2 ^ k" by (intro power_increasing) simp_all
    then have "length (contents (2 ^ k) (txBuffer d)) < 2 ^ k - 1" using c by simp
    with produce [OF k w, where d = "0xAA"] have "fst (put SIZE 0xAA (txBuffer d))"
      by (auto simp: S split: prod.splits)
    from general [OF this] c show ?thesis
      using isEmpty_iff [OF k] by (auto simp: S split: prod.splits)
  qed
  from general [of b] scenario show ?thesis by (auto split: prod.splits)
qed

theorem idle_to_active_witness:
  "power_of_two 8 \<and> wf_buffer 8 (txBuffer (new_driver LPUART_1 getDefaultLpuartConfig (replicate 8 0))) \<and>
   \<not> transmissionActive (new_driver LPUART_1 getDefaultLpuartConfig (replicate 8 0)) \<and>
   fst (put 8 0xAA (txBuffer (new_driver LPUART_1 getDefaultLpuartConfig (replicate 8 0)))) \<and>
   (8 :: uint16_t) \<noteq> 1 \<and> isEmpty (txBuffer (new_driver LPUART_1 getDefaultLpuartConfig (replicate 8 0))) \<and>
   (case sendByte 8 0xAA (new_driver LPUART_1 getDefaultLpuartConfig (replicate 8 0)) fresh_machine of
      (accepted, d', m') \<Rightarrow>
        accepted \<and> isTransmissionActive d' \<and> tx_calls m' = [0xAA] \<and> isEmpty (txBuffer d'))"
proof -
  have h1: "power_of_two 8" by code_simp
  have h2: "wf_buffer 8 (txBuffer (new_driver LPUART_1 getDefaultLpuartConfig (replicate 8 0)))"
    by (simp add: wf_buffer_def new_driver_def new_buffer_def)
  have h3: "\<not> transmissionActive (new_driver LPUART_1 getDefaultLpuartConfig (replicate 8 0))"
    by (simp add: new_driver_def)
  have h4: "fst (put 8 0xAA (txBuffer (new_driver LPUART_1 getDefaultLpuartConfig (replicate 8 0))))"
    by code_simp
  have h5: "(8 :: uint16_t) \<noteq> 1" by simp
  have h6: "isEmpty (txBuffer (new_driver LPUART_1 getDefaultLpuartConfig (replicate 8 0)))"
    by (simp add: new_driver_def isEmpty_new_buffer)
  have h7: "tx_calls fresh_machine = []" by (simp add: fresh_machine_def)
  from idle_to_active [OF h1 h2 h3, of "0xAA" fresh_machine] h5 h6 h7
  have "case sendByte 8 0xAA (new_driver LPUART_1 getDefaultLpuartConfig (replicate 8 0)) fresh_machine of
      (accepted, d', m') \<Rightarrow>
        accepted \<and> isTransmissionActive d' \<and> tx_calls m' = [0xAA] \<and> isEmpty (txBuffer d')"
    by (auto split: prod.splits)
  with h1 h2 h3 h4 h5 h6 show ?thesis by blast
qed

section \<open>The interrupt drain transition\<close>

lemma handleTxCompleteInterrupt_empty:
  "isEmpty (txBuffer d) \<Longrightarrow>
   handleTxCompleteInterrupt SIZE d m = (d\<lparr>transmissionActive := False\<rparr>, m)"
  by (simp add: handleTxCompleteInterrupt_def get_empty)

text \<open>
  C3. On a transmit-complete interrupt while Active: if the buffer is not empty,
  \<^verbatim>\<open>handleTxCompleteInterrupt\<close> removes the oldest byte, hands it to the transmit
  primitive and the driver stays Active; if the buffer is empty, it sets the state to
  Idle and does nothing else. After \<^verbatim>\<open>sendByte\<close> of 1, 2 and 3 on a fresh driver, three
  interrupts hand over 2, then 3, then set the state to Idle and leave the machine as
  it was.
\<close>

theorem interrupt_drain:
  assumes "power_of_two SIZE"
  shows "(wf_buffer SIZE (txBuffer d) \<and> transmissionActive d \<and> \<not> isEmpty (txBuffer d) \<longrightarrow>
            (case handleTxCompleteInterrupt SIZE d m of
               (d', m') \<Rightarrow>
                 transmissionActive d' \<and>
                 tx_calls m' = tx_calls m @ [hd (contents SIZE (txBuffer d))] \<and>
                 contents SIZE (txBuffer d') = tl (contents SIZE (txBuffer d)))) \<and>
         (transmissionActive d \<and> isEmpty (txBuffer d) \<longrightarrow>
            handleTxCompleteInterrupt SIZE d m = (d\<lparr>transmissionActive := False\<rparr>, m)) \<and>
         (wf_memory SIZE mem \<and> 4 \<le> unat SIZE \<longrightarrow>
            (let s3 = run SIZE [Ev_sendByte 1, Ev_sendByte 2, Ev_sendByte 3]
                        (start_state peripheral cfg0 mem);
                 s4 = step SIZE s3 Ev_interrupt;
                 s5 = step SIZE s4 Ev_interrupt;
                 s6 = step SIZE s5 Ev_interrupt
             in enqueued s3 = [1, 2, 3] \<and>
                tx_calls (mach s3) = [1] \<and> transmissionActive (drv s3) \<and>
                tx_calls (mach s4) = [1, 2] \<and> transmissionActive (drv s4) \<and>
                tx_calls (mach s5) = [1, 2, 3] \<and> transmissionActive (drv s5) \<and>
                mach s6 = mach s5 \<and> \<not> transmissionActive (drv s6)))"
proof -
  from power_of_twoD [OF assms(1)] obtain k where k: "k < 16" and S: "SIZE = 2 ^ k" by blast
  have pull: "case handleTxCompleteInterrupt SIZE d m of
      (d', m') \<Rightarrow>
        transmissionActive d' \<and>
        tx_calls m' = tx_calls m @ [hd (contents SIZE (txBuffer d))] \<and>
        contents SIZE (txBuffer d') = tl (contents SIZE (txBuffer d))"
    if "wf_buffer SIZE (txBuffer d)" "transmissionActive d" "\<not> isEmpty (txBuffer d)"
  proof -
    have w: "wf_buffer (2 ^ k) (txBuffer d)" using that(1) S by simp
    have "contents (2 ^ k) (txBuffer d) \<noteq> []" using isEmpty_iff [OF k w] that(3) by simp
    with handleTxCompleteInterrupt_spec [OF k w, where m = m] that(2)
    show ?thesis by (auto simp: S split: prod.splits list.splits)
  qed
  have scenario: "let s3 = run SIZE [Ev_sendByte 1, Ev_sendByte 2, Ev_sendByte 3]
                        (start_state peripheral cfg0 mem);
                 s4 = step SIZE s3 Ev_interrupt;
                 s5 = step SIZE s4 Ev_interrupt;
                 s6 = step SIZE s5 Ev_interrupt
             in enqueued s3 = [1, 2, 3] \<and>
                tx_calls (mach s3) = [1] \<and> transmissionActive (drv s3) \<and>
                tx_calls (mach s4) = [1, 2] \<and> transmissionActive (drv s4) \<and>
                tx_calls (mach s5) = [1, 2, 3] \<and> transmissionActive (drv s5) \<and>
                mach s6 = mach s5 \<and> \<not> transmissionActive (drv s6)"
    if mem: "wf_memory SIZE mem" and four: "4 \<le> unat SIZE"
  proof -
    define s0 where "s0 = start_state peripheral cfg0 mem"
    define s3 where "s3 = run SIZE [Ev_sendByte 1, Ev_sendByte 2, Ev_sendByte 3] s0"
    define s4 where "s4 = step SIZE s3 Ev_interrupt"
    define s5 where "s5 = step SIZE s4 Ev_interrupt"
    define s6 where "s6 = step SIZE s5 Ev_interrupt"
    have C: "(4::nat) \<le> 2 ^ k" using four by (simp add: S unat_pow2 [OF k])
    have wf0: "wf_buffer (2 ^ k) (txBuffer (drv s0))"
      using wf_new_buffer [OF k] mem by (simp add: S s0_def start_state_def new_driver_def)
    have a0: "abstraction (2 ^ k) s0 = ([], False, [], [])"
      using abstraction_start_state [OF k] mem by (simp add: S s0_def)
    from run_refines [OF k wf0, of "[Ev_sendByte 1, Ev_sendByte 2, Ev_sendByte 3]"] C
    have wf3: "wf_buffer (2 ^ k) (txBuffer (drv s3))"
      and a3: "abstraction (2 ^ k) s3 = ([2, 3], True, [1], [1, 2, 3])"
      by (simp_all add: s3_def S a0)
    from step_refines [OF k wf3, where e = Ev_interrupt]
    have wf4: "wf_buffer (2 ^ k) (txBuffer (drv s4))"
      and a4: "abstraction (2 ^ k) s4 = ([3], True, [1, 2], [1, 2, 3])"
      by (simp_all add: s4_def S a3)
    from step_refines [OF k wf4, where e = Ev_interrupt]
    have wf5: "wf_buffer (2 ^ k) (txBuffer (drv s5))"
      and a5: "abstraction (2 ^ k) s5 = ([], True, [1, 2, 3], [1, 2, 3])"
      by (simp_all add: s5_def S a4)
    have "isEmpty (txBuffer (drv s5))"
      using isEmpty_iff [OF k wf5] a5 by (simp add: abstraction_def)
    from handleTxCompleteInterrupt_empty [OF this, of SIZE "mach s5"]
    have s6: "mach s6 = mach s5" "\<not> transmissionActive (drv s6)"
      by (simp_all add: s6_def)
    show ?thesis
      unfolding Let_def s0_def [symmetric] s3_def [symmetric] s4_def [symmetric]
        s5_def [symmetric] s6_def [symmetric]
      using a3 a4 a5 s6 by (simp add: abstraction_def)
  qed
  show ?thesis
  proof (intro conjI impI)
    assume "wf_buffer SIZE (txBuffer d) \<and> transmissionActive d \<and> \<not> isEmpty (txBuffer d)"
    then show "case handleTxCompleteInterrupt SIZE d m of
      (d', m') \<Rightarrow>
        transmissionActive d' \<and>
        tx_calls m' = tx_calls m @ [hd (contents SIZE (txBuffer d))] \<and>
        contents SIZE (txBuffer d') = tl (contents SIZE (txBuffer d))"
      by (intro pull) simp_all
  next
    assume "transmissionActive d \<and> isEmpty (txBuffer d)"
    then show "handleTxCompleteInterrupt SIZE d m = (d\<lparr>transmissionActive := False\<rparr>, m)"
      by (intro handleTxCompleteInterrupt_empty) simp
  next
    assume "wf_memory SIZE mem \<and> 4 \<le> unat SIZE"
    then show "let s3 = run SIZE [Ev_sendByte 1, Ev_sendByte 2, Ev_sendByte 3]
                        (start_state peripheral cfg0 mem);
                 s4 = step SIZE s3 Ev_interrupt;
                 s5 = step SIZE s4 Ev_interrupt;
                 s6 = step SIZE s5 Ev_interrupt
             in enqueued s3 = [1, 2, 3] \<and>
                tx_calls (mach s3) = [1] \<and> transmissionActive (drv s3) \<and>
                tx_calls (mach s4) = [1, 2] \<and> transmissionActive (drv s4) \<and>
                tx_calls (mach s5) = [1, 2, 3] \<and> transmissionActive (drv s5) \<and>
                mach s6 = mach s5 \<and> \<not> transmissionActive (drv s6)"
      by (intro scenario) simp_all
  qed
qed

theorem interrupt_drain_witness:
  "power_of_two 8 \<and>
   wf_buffer 8 \<lparr>buffer = [1, 2, 3, 0, 0, 0, 0, 0], head = 3, tail = 1\<rparr> \<and>
   \<not> isEmpty \<lparr>buffer = [1, 2, 3, 0, 0, 0, 0, 0], head = 3, tail = 1\<rparr> \<and>
   isEmpty \<lparr>buffer = [1, 2, 3, 0, 0, 0, 0, 0], head = 3, tail = 3\<rparr> \<and>
   wf_memory 8 (replicate 8 0) \<and> 4 \<le> unat (8 :: uint16_t) \<and>
   tx_calls (snd (handleTxCompleteInterrupt 8
     \<lparr>peripheralType = LPUART_1, usartInstance = Some LPUART1, config = getDefaultLpuartConfig,
      txBuffer = \<lparr>buffer = [1, 2, 3, 0, 0, 0, 0, 0], head = 3, tail = 1\<rparr>,
      transmissionActive = True\<rparr>
     \<lparr>g_lpuart1Instance = None, ll_calls = [], tx_calls = [1]\<rparr>)) = [1, 2] \<and>
   handleTxCompleteInterrupt 8
     \<lparr>peripheralType = LPUART_1, usartInstance = Some LPUART1, config = getDefaultLpuartConfig,
      txBuffer = \<lparr>buffer = [1, 2, 3, 0, 0, 0, 0, 0], head = 3, tail = 3\<rparr>,
      transmissionActive = True\<rparr>
     \<lparr>g_lpuart1Instance = None, ll_calls = [], tx_calls = [1, 2, 3]\<rparr> =
   (\<lparr>peripheralType = LPUART_1, usartInstance = Some LPUART1, config = getDefaultLpuartConfig,
      txBuffer = \<lparr>buffer = [1, 2, 3, 0, 0, 0, 0, 0], head = 3, tail = 3\<rparr>,
      transmissionActive = False\<rparr>,
    \<lparr>g_lpuart1Instance = None, ll_calls = [], tx_calls = [1, 2, 3]\<rparr>) \<and>
   tx_calls (mach (step 8 (run 8 [Ev_sendByte 1, Ev_sendByte 2, Ev_sendByte 3]
     (start_state LPUART_1 getDefaultLpuartConfig (replicate 8 0))) Ev_interrupt)) = [1, 2]"
proof -
  let ?full = "\<lparr>buffer = [1, 2, 3, 0, 0, 0, 0, 0], head = 3, tail = 1 :: uint16_t\<rparr>"
  let ?empty = "\<lparr>buffer = [1, 2, 3, 0, 0, 0, 0, 0], head = 3, tail = 3 :: uint16_t\<rparr>"
  let ?d1 = "\<lparr>peripheralType = LPUART_1, usartInstance = Some LPUART1,
      config = getDefaultLpuartConfig, txBuffer = ?full, transmissionActive = True\<rparr>"
  let ?d2 = "\<lparr>peripheralType = LPUART_1, usartInstance = Some LPUART1,
      config = getDefaultLpuartConfig, txBuffer = ?empty, transmissionActive = True\<rparr>"
  let ?m1 = "\<lparr>g_lpuart1Instance = None, ll_calls = [], tx_calls = [1 :: uint8_t]\<rparr>"
  let ?m2 = "\<lparr>g_lpuart1Instance = None, ll_calls = [], tx_calls = [1, 2, 3 :: uint8_t]\<rparr>"
  have h1: "power_of_two 8" by code_simp
  have h2: "wf_buffer 8 ?full" by (simp add: wf_buffer_def)
  have h3: "\<not> isEmpty ?full" by (simp add: isEmpty_def)
  have h4: "isEmpty ?empty" by (simp add: isEmpty_def)
  have h5: "wf_memory 8 (replicate 8 0)" by (simp add: wf_memory_def)
  have h6: "4 \<le> unat (8 :: uint16_t)" by simp
  have c: "contents 8 ?full = [2, 3]" by code_simp
  have a1: "transmissionActive ?d1" "transmissionActive ?d2" by simp_all
  from interrupt_drain [OF h1, where d = ?d1 and m = ?m1, THEN conjunct1] h2 h3 a1 c
  have r1: "tx_calls (snd (handleTxCompleteInterrupt 8 ?d1 ?m1)) = [1, 2]"
    by (auto split: prod.splits)
  from interrupt_drain [OF h1, where d = ?d2 and m = ?m2, THEN conjunct2, THEN conjunct1] h4 a1
  have r2: "handleTxCompleteInterrupt 8 ?d2 ?m2 = (?d2\<lparr>transmissionActive := False\<rparr>, ?m2)"
    by simp
  from interrupt_drain [OF h1, where mem = "replicate 8 0" and peripheral = LPUART_1
      and ?cfg0.0 = getDefaultLpuartConfig, THEN conjunct2, THEN conjunct2] h5 h6
  have r3: "tx_calls (mach (step 8 (run 8 [Ev_sendByte 1, Ev_sendByte 2, Ev_sendByte 3]
     (start_state LPUART_1 getDefaultLpuartConfig (replicate 8 0))) Ev_interrupt)) = [1, 2]"
    unfolding Let_def by blast
  from h1 h2 h3 h4 h5 h6 r1 r2 r3 show ?thesis by simp
qed

section \<open>Capacity and rejection by put\<close>

lemma put_all_spec:
  assumes "k < 16"
  shows "wf_buffer (2 ^ k) cb \<Longrightarrow> length (contents (2 ^ k) cb) + length bs \<le> 2 ^ k - 1 \<Longrightarrow>
         fst (put_all (2 ^ k) bs cb) = replicate (length bs) True \<and>
         wf_buffer (2 ^ k) (snd (put_all (2 ^ k) bs cb)) \<and>
         contents (2 ^ k) (snd (put_all (2 ^ k) bs cb)) = contents (2 ^ k) cb @ bs"
proof (induction bs arbitrary: cb)
  case Nil
  then show ?case by simp
next
  case (Cons b bs)
  obtain ok cb' where p: "put (2 ^ k) b cb = (ok, cb')" by (cases "put (2 ^ k) b cb")
  from produce [OF assms Cons.prems(1), where d = b] p Cons.prems(2)
  have ok: "ok" and wf': "wf_buffer (2 ^ k) cb'"
    and c': "contents (2 ^ k) cb' = contents (2 ^ k) cb @ [b]"
    by auto
  have "length (contents (2 ^ k) cb') + length bs \<le> 2 ^ k - 1"
    using Cons.prems(2) c' by simp
  from Cons.IH [OF wf' this] show ?case
    using p ok c' by (simp add: split_beta)
qed

lemma isFull_iff:
  assumes "k < 16"
  shows "isFull (2 ^ k) cb \<longleftrightarrow> \<not> fst (put (2 ^ k) d cb)"
proof -
  have "(uint (head cb) + 1) AND uint (MASK (2 ^ k)) = (uint (head cb) + 1) mod 2 ^ k"
    by (simp add: uint_MASK [OF assms] and_pow2m1)
  with masked_uint [OF assms, of "uint (head cb) + 1"]
  have "uint (word_of_int ((uint (head cb) + 1) AND uint (MASK (2 ^ k))) :: uint16_t)
      = (uint (head cb) + 1) AND uint (MASK (2 ^ k))"
    by (simp only:)
  then have "(word_of_int ((uint (head cb) + 1) AND uint (MASK (2 ^ k))) = tail cb)
      \<longleftrightarrow> (uint (head cb) + 1) AND uint (MASK (2 ^ k)) = uint (tail cb)"
    by (metis word_uint_eq_iff)
  then show ?thesis by (simp add: isFull_def put_def Let_def)
qed

text \<open>
  C4. For every power-of-two capacity \<open>C\<close>: starting from an empty buffer, each of up
  to \<open>C - 1\<close> consecutive \<^verbatim>\<open>put\<close> calls returns \<^verbatim>\<open>true\<close> and the bytes are stored in
  order; after \<open>C - 1\<close> of them the next \<^verbatim>\<open>put\<close> returns \<^verbatim>\<open>false\<close> and changes
  nothing; and on any buffer holding \<open>C - 1\<close> bytes \<^verbatim>\<open>isFull\<close> holds and \<^verbatim>\<open>put\<close>
  returns \<^verbatim>\<open>false\<close> with the array, \<open>head\<close> and \<open>tail\<close> as they were.
\<close>

theorem put_capacity:
  assumes "power_of_two SIZE" and "wf_buffer SIZE cb"
  shows "(isEmpty cb \<and> length bs \<le> unat SIZE - 1 \<longrightarrow>
            fst (put_all SIZE bs cb) = replicate (length bs) True \<and>
            contents SIZE (snd (put_all SIZE bs cb)) = bs \<and>
            unat (size_buf SIZE (snd (put_all SIZE bs cb))) = length bs) \<and>
         (isEmpty cb \<and> length bs = unat SIZE - 1 \<longrightarrow>
            put SIZE b (snd (put_all SIZE bs cb)) = (False, snd (put_all SIZE bs cb))) \<and>
         (unat (size_buf SIZE cb) = unat SIZE - 1 \<longrightarrow>
            isFull SIZE cb \<and> put SIZE b cb = (False, cb))"
proof -
  from power_of_twoD [OF assms(1)] obtain k where k: "k < 16" and S: "SIZE = 2 ^ k" by blast
  have w: "wf_buffer (2 ^ k) cb" using assms(2) S by simp
  have full: "isFull SIZE x \<and> put SIZE b x = (False, x)"
    if "wf_buffer SIZE x" "unat (size_buf SIZE x) = unat SIZE - 1" for x
  proof -
    have "\<not> fst (put (2 ^ k) b x)"
      using put_full_iff [OF k, where cb = x and d = b] that by (simp add: S unat_pow2 [OF k])
    then show ?thesis using isFull_iff [OF k, where cb = x and d = b] put_False by (simp add: S)
  qed
  have fill: "fst (put_all SIZE bs cb) = replicate (length bs) True \<and>
      wf_buffer SIZE (snd (put_all SIZE bs cb)) \<and>
      contents SIZE (snd (put_all SIZE bs cb)) = bs \<and>
      unat (size_buf SIZE (snd (put_all SIZE bs cb))) = length bs"
    if "isEmpty cb" "length bs \<le> unat SIZE - 1"
  proof -
    have "contents (2 ^ k) cb = []" using isEmpty_iff [OF k w] that(1) by simp
    with put_all_spec [OF k w, of bs] that(2)
    have "fst (put_all SIZE bs cb) = replicate (length bs) True"
      "wf_buffer SIZE (snd (put_all SIZE bs cb))"
      "contents SIZE (snd (put_all SIZE bs cb)) = bs"
      by (simp_all add: S unat_pow2 [OF k])
    then show ?thesis by (metis length_contents)
  qed
  show ?thesis
  proof (intro conjI impI)
    assume "isEmpty cb \<and> length bs \<le> unat SIZE - 1"
    with fill show "fst (put_all SIZE bs cb) = replicate (length bs) True"
      "contents SIZE (snd (put_all SIZE bs cb)) = bs"
      "unat (size_buf SIZE (snd (put_all SIZE bs cb))) = length bs"
      by simp_all
  next
    assume a: "isEmpty cb \<and> length bs = unat SIZE - 1"
    with fill have "wf_buffer SIZE (snd (put_all SIZE bs cb))"
      "unat (size_buf SIZE (snd (put_all SIZE bs cb))) = unat SIZE - 1"
      by simp_all
    from full [OF this] show "put SIZE b (snd (put_all SIZE bs cb)) = (False, snd (put_all SIZE bs cb))"
      by simp
  next
    assume "unat (size_buf SIZE cb) = unat SIZE - 1"
    from full [OF assms(2) this] show "isFull SIZE cb" "put SIZE b cb = (False, cb)" by simp_all
  qed
qed

theorem put_capacity_witness:
  "power_of_two 8 \<and> wf_buffer 8 (new_buffer (replicate 8 0)) \<and> isEmpty (new_buffer (replicate 8 0)) \<and>
   length [1, 2, 3, 4, 5, 6, 7 :: uint8_t] = unat (8 :: uint16_t) - 1 \<and>
   fst (put_all 8 [1, 2, 3, 4, 5, 6, 7] (new_buffer (replicate 8 0))) =
     [True, True, True, True, True, True, True] \<and>
   snd (put_all 8 [1, 2, 3, 4, 5, 6, 7] (new_buffer (replicate 8 0))) =
     \<lparr>buffer = [1, 2, 3, 4, 5, 6, 7, 0], head = 7, tail = 0\<rparr> \<and>
   put 8 9 \<lparr>buffer = [1, 2, 3, 4, 5, 6, 7, 0], head = 7, tail = 0\<rparr> =
     (False, \<lparr>buffer = [1, 2, 3, 4, 5, 6, 7, 0], head = 7, tail = 0\<rparr>)"
proof -
  have h1: "power_of_two 8" by code_simp
  have h2: "wf_buffer 8 (new_buffer (replicate 8 0))" by (simp add: wf_buffer_def new_buffer_def)
  have h3: "isEmpty (new_buffer (replicate 8 0))" by (rule isEmpty_new_buffer)
  have h4: "length [1, 2, 3, 4, 5, 6, 7 :: uint8_t] = unat (8 :: uint16_t) - 1" by simp
  have v: "snd (put_all 8 [1, 2, 3, 4, 5, 6, 7] (new_buffer (replicate 8 0))) =
     \<lparr>buffer = [1, 2, 3, 4, 5, 6, 7, 0], head = 7, tail = 0\<rparr>"
    by code_simp
  note T = put_capacity [OF h1 h2, where bs = "[1, 2, 3, 4, 5, 6, 7]" and b = 9]
  from T [THEN conjunct1] h3 h4
  have r1: "fst (put_all 8 [1, 2, 3, 4, 5, 6, 7] (new_buffer (replicate 8 0))) =
     [True, True, True, True, True, True, True]"
    by (simp add: numeral_eq_Suc)
  from T [THEN conjunct2, THEN conjunct1] h3 h4
  have r2: "put 8 9 \<lparr>buffer = [1, 2, 3, 4, 5, 6, 7, 0], head = 7, tail = 0\<rparr> =
     (False, \<lparr>buffer = [1, 2, 3, 4, 5, 6, 7, 0], head = 7, tail = 0\<rparr>)"
    unfolding v by simp
  from h1 h2 h3 h4 v r1 r2 show ?thesis by blast
qed

section \<open>Free space and size are complementary\<close>

lemma complement_mod:
  assumes "0 < (c::int)"
  shows "(- x - 1) mod c + x mod c = c - 1"
proof -
  have e: "c - 1 - x = (- x - 1) + c" by simp
  have "(- x - 1) mod c = ((- x - 1) + c) mod c" by (simp only: mod_add_self2)
  also have "\<dots> = (c - 1 - x) mod c" by (simp only: e)
  also have "\<dots> = (c - 1 - x mod c) mod c" by (simp only: mod_diff_right_eq)
  also have "\<dots> = c - 1 - x mod c"
  proof (rule mod_pos_pos_trivial)
    have "x mod c < c" "0 \<le> x mod c" using assms by simp_all
    then show "0 \<le> c - 1 - x mod c" "c - 1 - x mod c < c" by linarith+
  qed
  finally show ?thesis by simp
qed

lemma space_size_sum:
  assumes "k < 16"
  shows "uint (availableSpace (2 ^ k) cb) + uint (size_buf (2 ^ k) cb) = uint (2 ^ k :: uint16_t) - 1"
proof -
  have e: "uint (tail cb) - uint (head cb) - 1 = - (uint (head cb) - uint (tail cb)) - 1" by simp
  have a: "uint (availableSpace (2 ^ k) cb) = (- (uint (head cb) - uint (tail cb)) - 1) mod 2 ^ k"
    unfolding availableSpace_def masked_uint [OF assms] by (simp only: e)
  have b: "uint (size_buf (2 ^ k) cb) = (uint (head cb) - uint (tail cb)) mod 2 ^ k"
    unfolding size_buf_def by (rule masked_uint [OF assms])
  have "(0::int) < 2 ^ k" by simp
  from complement_mod [OF this, of "uint (head cb) - uint (tail cb)"] show ?thesis
    unfolding a b uint_pow2 [OF assms] .
qed

text \<open>
  C5. For every power-of-two capacity \<open>C\<close> and every buffer reached from a fresh one by
  any sequence of \<^verbatim>\<open>put\<close>, \<^verbatim>\<open>get\<close> and \<^verbatim>\<open>clear\<close> calls,
  \<^verbatim>\<open>availableSpace() + size() == C - 1\<close>; and for every driver
  \<^verbatim>\<open>getAvailableSpace() + getQueueSize() == C - 1\<close>. (The sums are those of the
  promoted integers, as C++ computes them.)
\<close>

theorem space_size_complement:
  assumes "power_of_two SIZE"
  shows "(let cb = apply_ops SIZE ops (new_buffer mem)
          in uint (availableSpace SIZE cb) + uint (size_buf SIZE cb) = uint SIZE - 1) \<and>
         uint (getAvailableSpace SIZE d) + uint (getQueueSize SIZE d) = uint SIZE - 1"
proof -
  from power_of_twoD [OF assms(1)] obtain k where k: "k < 16" and S: "SIZE = 2 ^ k" by blast
  show ?thesis
    unfolding Let_def getAvailableSpace_def getQueueSize_def S
    using space_size_sum [OF k] by simp
qed

theorem space_size_complement_witness:
  "power_of_two 8 \<and>
   apply_ops 8 [Op_put 1, Op_put 2, Op_put 3, Op_get, Op_clear, Op_put 5, Op_put 6, Op_get]
     (new_buffer (replicate 8 0)) = \<lparr>buffer = [5, 6, 3, 0, 0, 0, 0, 0], head = 2, tail = 1\<rparr> \<and>
   uint (availableSpace 8 \<lparr>buffer = [5, 6, 3, 0, 0, 0, 0, 0], head = 2, tail = 1\<rparr>) +
   uint (size_buf 8 \<lparr>buffer = [5, 6, 3, 0, 0, 0, 0, 0], head = 2, tail = 1\<rparr>) = 7"
proof -
  have h1: "power_of_two 8" by code_simp
  have v: "apply_ops 8 [Op_put 1, Op_put 2, Op_put 3, Op_get, Op_clear, Op_put 5, Op_put 6, Op_get]
     (new_buffer (replicate 8 0)) = \<lparr>buffer = [5, 6, 3, 0, 0, 0, 0, 0], head = 2, tail = 1\<rparr>"
    by code_simp
  from space_size_complement [OF h1,
      where ops = "[Op_put 1, Op_put 2, Op_put 3, Op_get, Op_clear, Op_put 5, Op_put 6, Op_get]"
        and mem = "replicate 8 0", THEN conjunct1]
  have "uint (availableSpace 8 \<lparr>buffer = [5, 6, 3, 0, 0, 0, 0, 0], head = 2, tail = 1\<rparr>) +
   uint (size_buf 8 \<lparr>buffer = [5, 6, 3, 0, 0, 0, 0, 0], head = 2, tail = 1\<rparr>) = 7"
    unfolding Let_def v by simp
  with h1 v show ?thesis by blast
qed

section \<open>Scenario A: capacity 8\<close>

text \<open>
  C7, as stated, fails: with capacity 8 the seventh \<^verbatim>\<open>put\<close> of the bytes 1..7 returns
  \<^verbatim>\<open>true\<close>. At that call the buffer holds 6 bytes and has one free cell. The same
  holds through \<^verbatim>\<open>sendByte\<close>: all seven bytes are accepted.
\<close>

theorem scenario_A_counterexample:
  "fst (put 8 7 (snd (put_all 8 [1, 2, 3, 4, 5, 6] (new_buffer (replicate 8 0))))) \<and>
   size_buf 8 (snd (put_all 8 [1, 2, 3, 4, 5, 6] (new_buffer (replicate 8 0)))) = 6 \<and>
   availableSpace 8 (snd (put_all 8 [1, 2, 3, 4, 5, 6] (new_buffer (replicate 8 0)))) = 1 \<and>
   fst (put_all 8 [1, 2, 3, 4, 5, 6, 7] (new_buffer (replicate 8 0))) \<noteq>
     [True, True, True, True, True, True, False] \<and>
   enqueued (run 8 (map Ev_sendByte [1, 2, 3, 4, 5, 6, 7])
     (start_state LPUART_1 getDefaultLpuartConfig (replicate 8 0))) = [1, 2, 3, 4, 5, 6, 7]"
  by code_simp

text \<open>
  C7, amended. With capacity 8 (7 usable cells), the \<^verbatim>\<open>put\<close> calls of the bytes 1..7 on
  a fresh buffer all succeed; the buffer then holds these 7 bytes, \<^verbatim>\<open>size() == 7\<close>,
  \<^verbatim>\<open>availableSpace() == 0\<close> and \<^verbatim>\<open>isFull()\<close>; a further \<^verbatim>\<open>put\<close> returns \<^verbatim>\<open>false\<close>,
  changes nothing, and \<^verbatim>\<open>size()\<close> is still 7.
\<close>

theorem scenario_A:
  assumes "wf_memory 8 mem"
  shows "fst (put_all 8 [1, 2, 3, 4, 5, 6, 7] (new_buffer mem)) =
           [True, True, True, True, True, True, True] \<and>
         (let cb = snd (put_all 8 [1, 2, 3, 4, 5, 6, 7] (new_buffer mem))
          in contents 8 cb = [1, 2, 3, 4, 5, 6, 7] \<and>
             size_buf 8 cb = 7 \<and> availableSpace 8 cb = 0 \<and> isFull 8 cb \<and>
             put 8 b cb = (False, cb) \<and> size_buf 8 (snd (put 8 b cb)) = 7)"
proof -
  have k: "(3::nat) < 16" by simp
  define bs where "bs = [1, 2, 3, 4, 5, 6, 7 :: uint8_t]"
  define cb where "cb = snd (put_all 8 bs (new_buffer mem))"
  have len: "length bs = 7" by (simp add: bs_def)
  have w0: "wf_buffer (2 ^ 3) (new_buffer mem)"
    using assms by (intro wf_new_buffer [OF k]) simp
  have c0: "contents (2 ^ 3) (new_buffer mem) = []"
    using isEmpty_iff [OF k w0] isEmpty_new_buffer by simp
  from put_all_spec [OF k w0, of bs] c0 len
  have r: "fst (put_all 8 bs (new_buffer mem)) = replicate 7 True"
    and w: "wf_buffer (2 ^ 3) cb" and c: "contents 8 cb = bs"
    by (simp_all add: cb_def)
  have n: "unat (size_buf 8 cb) = 7" using c len length_contents [of 8 cb] by simp
  then have "unat (size_buf 8 cb) = unat (7 :: uint16_t)" by simp
  then have sz: "size_buf 8 cb = 7" by (simp only: word_unat_eq_iff)
  have "unat (availableSpace (2 ^ 3) cb) = 0"
    using unat_availableSpace [OF k w] n by simp
  then have av: "availableSpace 8 cb = 0" by (simp add: unat_eq_0)
  have "\<not> fst (put (2 ^ 3) b cb)" using put_full_iff [OF k w, where d = b] n by simp
  then have f: "isFull 8 cb" "put 8 b cb = (False, cb)"
    using isFull_iff [OF k, where cb = cb and d = b] put_False [of 8 b cb] by simp_all
  have t: "replicate 7 True = [True, True, True, True, True, True, True]"
    by (simp add: numeral_eq_Suc)
  have "fst (put_all 8 bs (new_buffer mem)) = [True, True, True, True, True, True, True] \<and>
         (let cb = snd (put_all 8 bs (new_buffer mem))
          in contents 8 cb = bs \<and>
             size_buf 8 cb = 7 \<and> availableSpace 8 cb = 0 \<and> isFull 8 cb \<and>
             put 8 b cb = (False, cb) \<and> size_buf 8 (snd (put 8 b cb)) = 7)"
    unfolding Let_def cb_def [symmetric] using r c sz av f t by simp
  then show ?thesis unfolding bs_def .
qed

theorem scenario_A_witness:
  "wf_memory 8 (replicate 8 0) \<and>
   fst (put_all 8 [1, 2, 3, 4, 5, 6, 7] (new_buffer (replicate 8 0))) =
     [True, True, True, True, True, True, True] \<and>
   put 8 8 (snd (put_all 8 [1, 2, 3, 4, 5, 6, 7] (new_buffer (replicate 8 0)))) =
     (False, snd (put_all 8 [1, 2, 3, 4, 5, 6, 7] (new_buffer (replicate 8 0))))"
proof -
  have h: "wf_memory 8 (replicate 8 0)" by (simp add: wf_memory_def)
  from scenario_A [OF h, of 8] h show ?thesis unfolding Let_def by blast
qed

section \<open>Interrupt dispatch\<close>

text \<open>
  With an instance registered, the dispatch runs the handler of the 256-cell
  instantiation on it, and is undefined for an object of any other instantiation.
\<close>

lemma registered_dispatch:
  assumes "g_lpuart1Instance (machine w) = Some p" and "objects w p = Some obj"
  shows "handleLpuart1Interrupt w =
           (if template_arg obj = 256
            then Inr (w\<lparr>objects := (objects w)
                          (p \<mapsto> obj\<lparr>driver := fst (handleTxCompleteInterrupt 256 (driver obj) (machine w))\<rparr>),
                        machine := snd (handleTxCompleteInterrupt 256 (driver obj) (machine w))\<rparr>)
            else Inl Wrong_instantiation)"
  using assms by (simp add: handleLpuart1Interrupt_def split_beta)

text \<open>
  C8. When the interrupt dispatch routine runs while no driver instance is registered
  (\<^verbatim>\<open>g_lpuart1Instance == nullptr\<close>), it returns normally and the whole world - every
  driver object with its buffer, the registry, the record of external and transmit
  calls - is as it was. The same holds for the C entry point.
\<close>

theorem unregistered_dispatch:
  assumes "g_lpuart1Instance (machine w) = None"
  shows "handleLpuart1Interrupt w = Inr w \<and> USART_HandleLpuart1Interrupt w = Inr w"
  using assms by (simp add: handleLpuart1Interrupt_def USART_HandleLpuart1Interrupt_def)

theorem unregistered_dispatch_witness:
  "g_lpuart1Instance
     (machine \<lparr>objects = [0 \<mapsto> \<lparr>template_arg = 256,
                   driver = new_driver LPUART_1 getDefaultLpuartConfig (replicate 256 0)\<rparr>],
               machine = fresh_machine\<rparr>) = None \<and>
   handleLpuart1Interrupt
     \<lparr>objects = [0 \<mapsto> \<lparr>template_arg = 256,
                   driver = new_driver LPUART_1 getDefaultLpuartConfig (replicate 256 0)\<rparr>],
      machine = fresh_machine\<rparr> =
   Inr \<lparr>objects = [0 \<mapsto> \<lparr>template_arg = 256,
                   driver = new_driver LPUART_1 getDefaultLpuartConfig (replicate 256 0)\<rparr>],
        machine = fresh_machine\<rparr>"
proof -
  have h: "g_lpuart1Instance
     (machine \<lparr>objects = [0 \<mapsto> \<lparr>template_arg = 256,
                   driver = new_driver LPUART_1 getDefaultLpuartConfig (replicate 256 0)\<rparr>],
               machine = fresh_machine\<rparr>) = None"
    by (simp add: fresh_machine_def)
  from unregistered_dispatch [OF h] h show ?thesis by blast
qed

section \<open>Clearing an empty buffer\<close>

text \<open>
  C9, as stated, fails: after one \<^verbatim>\<open>put\<close> and one \<^verbatim>\<open>get\<close> on a fresh buffer of capacity
  8 the buffer is empty with both indices 1, and \<^verbatim>\<open>clear()\<close> changes it (the indices
  become 0).
\<close>

theorem clear_empty_counterexample:
  "snd (get 8 (snd (put 8 7 (new_buffer (replicate 8 0))))) =
     \<lparr>buffer = [7, 0, 0, 0, 0, 0, 0, 0], head = 1, tail = 1\<rparr> \<and>
   isEmpty \<lparr>buffer = [7, 0, 0, 0, 0, 0, 0, 0], head = 1, tail = 1\<rparr> \<and>
   clear \<lparr>buffer = [7, 0, 0, 0, 0, 0, 0, 0], head = 1, tail = 1\<rparr> \<noteq>
     \<lparr>buffer = [7, 0, 0, 0, 0, 0, 0, 0], head = 1, tail = 1\<rparr>"
  by code_simp

text \<open>
  C9, amended. On a buffer that is already empty (\<^verbatim>\<open>head == tail\<close>), \<^verbatim>\<open>clear()\<close> leaves
  the array, the emptiness, \<^verbatim>\<open>size()\<close>, \<^verbatim>\<open>availableSpace()\<close> and the queued bytes
  unchanged and sets both indices to 0; a second \<^verbatim>\<open>clear()\<close> changes nothing more; the
  buffer as a whole is unchanged exactly when its indices were 0 already.
\<close>

theorem clear_empty:
  assumes "isEmpty cb"
  shows "isEmpty (clear cb) \<and> buffer (clear cb) = buffer cb \<and>
         size_buf SIZE (clear cb) = size_buf SIZE cb \<and>
         availableSpace SIZE (clear cb) = availableSpace SIZE cb \<and>
         contents SIZE (clear cb) = contents SIZE cb \<and>
         head (clear cb) = 0 \<and> tail (clear cb) = 0 \<and>
         clear (clear cb) = clear cb \<and>
         (clear cb = cb \<longleftrightarrow> head cb = 0)"
proof -
  have e: "head cb = tail cb" using assms by (simp add: isEmpty_def)
  have s: "size_buf SIZE (clear cb) = 0" "size_buf SIZE cb = 0"
    by (simp_all add: size_buf_def clear_def e)
  have c: "contents SIZE (clear cb) = []" "contents SIZE cb = []"
    by (simp_all add: contents_def s)
  have "clear cb = cb \<longleftrightarrow> head cb = 0"
  proof
    assume "clear cb = cb"
    then have "head (clear cb) = head cb" by simp
    then show "head cb = 0" by (simp add: clear_def)
  next
    assume "head cb = 0"
    then show "clear cb = cb" using e by (simp add: clear_def)
  qed
  then show ?thesis using s c e
    by (simp add: isEmpty_def clear_def availableSpace_def)
qed

theorem clear_empty_witness:
  "isEmpty \<lparr>buffer = [7, 0, 0, 0, 0, 0, 0, 0], head = 1, tail = 1\<rparr> \<and>
   size_buf 8 (clear \<lparr>buffer = [7, 0, 0, 0, 0, 0, 0, 0], head = 1, tail = 1\<rparr>) =
   size_buf 8 \<lparr>buffer = [7, 0, 0, 0, 0, 0, 0, 0], head = 1, tail = 1\<rparr> \<and>
   clear \<lparr>buffer = [7, 0, 0, 0, 0, 0, 0, 0], head = 1, tail = 1\<rparr> =
     \<lparr>buffer = [7, 0, 0, 0, 0, 0, 0, 0], head = 0, tail = 0\<rparr> \<and>
   isEmpty (new_buffer (replicate 8 0)) \<and> clear (new_buffer (replicate 8 0)) = new_buffer (replicate 8 0)"
proof -
  have h: "isEmpty \<lparr>buffer = [7, 0, 0, 0, 0, 0, 0, 0], head = 1, tail = 1\<rparr>"
    by (simp add: isEmpty_def)
  have h0: "isEmpty (new_buffer (replicate 8 0))" by (rule isEmpty_new_buffer)
  have v: "clear \<lparr>buffer = [7, 0, 0, 0, 0, 0, 0, 0], head = 1, tail = 1\<rparr> =
     \<lparr>buffer = [7, 0, 0, 0, 0, 0, 0, 0], head = 0, tail = 0\<rparr>"
    by (simp add: clear_def)
  have z: "head (new_buffer (replicate 8 0)) = 0" by (simp add: new_buffer_def)
  from clear_empty [OF h, of 8] clear_empty [OF h0, of 8] h h0 v z show ?thesis by blast
qed

section \<open>Initialisation\<close>

text \<open>
  C10. \<^verbatim>\<open>initialize(cfg)\<close> returns \<^verbatim>\<open>true\<close> for every peripheral type, every
  configuration and every state of the driver and the machine; it stores the
  configuration and leaves the transmit buffer and the transmission state alone.
\<close>

theorem initialize_returns_true:
  "fst (initialize this cfg d m) = True \<and>
   config (fst (snd (initialize this cfg d m))) = cfg \<and>
   txBuffer (fst (snd (initialize this cfg d m))) = txBuffer d \<and>
   transmissionActive (fst (snd (initialize this cfg d m))) = transmissionActive d"
  by (simp add: initialize_def Let_def)

end
